theory Spec2Isabelle
  imports Main "HOL-Library.List_Lexorder"
begin

section \<open>Python strings\<close>

text \<open>
  A Python \<open>str\<close> is a sequence of Unicode code points. A code point is modelled as a
  natural number and a string as the list of its code points, so that the non-breaking
  space U+00A0 and the line separators beyond ASCII are single characters, as they are
  for \<open>str.replace\<close>, \<open>str.splitlines\<close> and \<open>str.strip\<close>.
\<close>

type_synonym codepoint = nat
type_synonym ustr = "codepoint list"

definition ascii :: "string \<Rightarrow> ustr" where
  "ascii s = map of_char s"

definition CR :: codepoint where "CR = 13"
definition LF :: codepoint where "LF = 10"
definition NBSP :: codepoint where "NBSP = 160"
definition SPACE :: codepoint where "SPACE = 32"

text \<open>
  The characters that \<open>str.strip()\<close> and \<open>str.rstrip()\<close> remove when called without an
  argument (CPython's \<open>Py_UNICODE_ISSPACE\<close>): U+0009..U+000D, U+001C..U+001F, U+0020,
  U+0085, U+00A0, U+1680, U+2000..U+200A, U+2028, U+2029, U+202F, U+205F, U+3000.
\<close>

definition is_space :: "codepoint \<Rightarrow> bool" where
  "is_space c \<longleftrightarrow>
     (9 \<le> c \<and> c \<le> 13) \<or> (28 \<le> c \<and> c \<le> 32) \<or> c = 133 \<or> c = 160 \<or> c = 5760 \<or>
     (8192 \<le> c \<and> c \<le> 8202) \<or> c = 8232 \<or> c = 8233 \<or> c = 8239 \<or> c = 8287 \<or> c = 12288"

text \<open>
  The line boundaries of \<open>str.splitlines()\<close> (CPython's \<open>Py_UNICODE_ISLINEBREAK\<close>):
  U+000A..U+000D, U+001C..U+001E, U+0085, U+2028, U+2029.
\<close>

definition is_linebreak :: "codepoint \<Rightarrow> bool" where
  "is_linebreak c \<longleftrightarrow>
     (10 \<le> c \<and> c \<le> 13) \<or> (28 \<le> c \<and> c \<le> 30) \<or> c = 133 \<or> c = 8232 \<or> c = 8233"

text \<open>\<open>s.replace(a, b)\<close> for one-character strings \<open>a\<close> and \<open>b\<close>.\<close>

definition replace_char :: "codepoint \<Rightarrow> codepoint \<Rightarrow> ustr \<Rightarrow> ustr" where
  "replace_char a b s = map (\<lambda>c. if c = a then b else c) s"

text \<open>
  \<open>s.splitlines()\<close>: the lines of \<open>s\<close> without their line boundaries. A carriage return
  directly followed by a line feed is one boundary. A boundary at the very end of the
  string opens no further line, and the empty string has no line at all.
\<close>

fun drop_lf :: "ustr \<Rightarrow> ustr" where
  "drop_lf [] = []"
| "drop_lf (c # cs) = (if c = LF then cs else c # cs)"

function splitlines :: "ustr \<Rightarrow> ustr list" where
  "splitlines [] = []"
| "splitlines (c # cs) =
     (if is_linebreak c then [] # splitlines (if c = CR then drop_lf cs else cs)
      else (case splitlines cs of [] \<Rightarrow> [[c]] | l # ls \<Rightarrow> (c # l) # ls))"
  by pat_completeness auto
termination
proof (relation "measure length")
  fix c :: codepoint and cs :: ustr
  have "length (drop_lf cs) \<le> length cs" by (cases cs) auto
  then show "(if c = CR then drop_lf cs else cs, c # cs) \<in> measure length" by auto
qed auto

definition lstrip :: "ustr \<Rightarrow> ustr" where
  "lstrip s = dropWhile is_space s"

definition rstrip :: "ustr \<Rightarrow> ustr" where
  "rstrip s = rev (dropWhile is_space (rev s))"

definition strip :: "ustr \<Rightarrow> ustr" where
  "strip s = rstrip (lstrip s)"

text \<open>The join of \<open>lines\<close> with a line feed between them.\<close>

fun join_lf :: "ustr list \<Rightarrow> ustr" where
  "join_lf [] = []"
| "join_lf [l] = l"
| "join_lf (l # ls) = l @ LF # join_lf ls"

section \<open>The text normalizer\<close>

text \<open>
  \<open>clean_text\<close> of the source. The argument is \<open>None\<close> or a value given by the text that
  \<open>str()\<close> makes of it; the result is \<open>None\<close> or a non-empty string.
\<close>

definition clean_text :: "ustr option \<Rightarrow> ustr option" where
  "clean_text s =
     (case s of
        None \<Rightarrow> None
      | Some s0 \<Rightarrow>
          (let s1 = replace_char NBSP SPACE (replace_char CR LF s0);
               s2 = join_lf (map rstrip (splitlines s1));
               s3 = strip s2
           in if s3 = [] then None else Some s3))"


section \<open>The store\<close>

text \<open>
  The three tables of \<open>SCHEMA_SQL\<close> that the load path writes, each as the list of its rows
  in rowid order. \<open>id INTEGER PRIMARY KEY\<close> is the rowid: an insert that names no id gets
  the largest id of the table plus one, and 1 in an empty table. Every insert of the load
  path gives \<open>created_at\<close> explicitly; \<open>tokens_used\<close> and \<open>latency_ms\<close> are never given and
  stay \<open>NULL\<close>. The tables \<open>themes\<close> and \<open>question_themes\<close> and the full-text shadow of
  \<open>FTS_SQL\<close> are not read or written by any function below and are left out.
\<close>

type_synonym timestamp = nat

record question_row =
  q_id :: nat
  q_text :: ustr
  q_created_at :: timestamp

record model_row =
  m_id :: nat
  m_name :: ustr

record answer_row =
  a_id :: nat
  a_question_id :: nat
  a_model_id :: nat
  a_answer_text :: ustr
  a_tokens_used :: "int option"
  a_latency_ms :: "int option"
  a_created_at :: timestamp

record store =
  questions :: "question_row list"
  models :: "model_row list"
  answers :: "answer_row list"

definition empty_store :: store where
  "empty_store = \<lparr>questions = [], models = [], answers = []\<rparr>"

text \<open>
  \<open>create_schema\<close>: every statement is \<open>CREATE ... IF NOT EXISTS\<close>, so a database that
  holds the tables already (\<open>Some s\<close>) keeps them with their rows, and a new database
  (\<open>None\<close>) gets them empty.
\<close>

definition create_schema :: "store option \<Rightarrow> bool \<Rightarrow> store" where
  "create_schema con with_fts = (case con of None \<Rightarrow> empty_store | Some s \<Rightarrow> s)"

definition next_rowid :: "nat list \<Rightarrow> nat" where
  "next_rowid ids = (if ids = [] then 1 else Max (set ids) + 1)"

text \<open>The long record: one row of the long table, as \<open>to_dict(orient="records")\<close> gives it.\<close>

record long_record =
  question_text :: "ustr option"
  model_name :: "ustr option"
  answer_text :: "ustr option"

datatype error = KeyError ustr | IntegrityError

subsection \<open>Models\<close>

text \<open>\<open>INSERT OR IGNORE INTO models(name) VALUES (?)\<close> under \<open>name TEXT UNIQUE NOT NULL\<close>.\<close>

definition insert_or_ignore_model :: "model_row list \<Rightarrow> ustr \<Rightarrow> model_row list" where
  "insert_or_ignore_model ms name =
     (if name \<in> set (map m_name ms) then ms
      else ms @ [\<lparr>m_id = next_rowid (map m_id ms), m_name = name\<rparr>])"

text \<open>The dictionary filled from \<open>SELECT id, name FROM models\<close>.\<close>

definition model_dict :: "model_row list \<Rightarrow> (ustr \<rightharpoonup> nat)" where
  "model_dict ms = foldl (\<lambda>d r. d(m_name r \<mapsto> m_id r)) Map.empty ms"

text \<open>
  \<open>upsert_model_ids\<close>: \<open>sorted(set(model_names))\<close> is the list of the distinct names in
  ascending order, strings compared code point by code point.
\<close>

definition upsert_model_ids :: "store \<Rightarrow> ustr list \<Rightarrow> (ustr \<rightharpoonup> nat) \<times> store" where
  "upsert_model_ids cur model_names =
     (let ms = foldl (\<lambda>ms name. if name = [] then ms else insert_or_ignore_model ms name)
                 (models cur) (sort (remdups model_names))
      in (model_dict ms, cur\<lparr>models := ms\<rparr>))"

subsection \<open>Questions\<close>

text \<open>
  \<open>INSERT OR IGNORE INTO questions(text, created_at) VALUES (?, ?)\<close> under
  \<open>text TEXT NOT NULL UNIQUE\<close>.
\<close>

definition insert_or_ignore_question ::
  "timestamp \<Rightarrow> question_row list \<Rightarrow> ustr \<Rightarrow> question_row list" where
  "insert_or_ignore_question now qs q =
     (if q \<in> set (map q_text qs) then qs
      else qs @ [\<lparr>q_id = next_rowid (map q_id qs), q_text = q, q_created_at = now\<rparr>])"

definition question_dict :: "question_row list \<Rightarrow> (ustr \<rightharpoonup> nat)" where
  "question_dict qs = foldl (\<lambda>d r. d(q_text r \<mapsto> q_id r)) Map.empty qs"

text \<open>\<open>upsert_questions\<close>; \<open>now\<close> is the value of \<open>datetime.utcnow()\<close> at the call.\<close>

definition upsert_questions ::
  "timestamp \<Rightarrow> store \<Rightarrow> ustr list \<Rightarrow> (ustr \<rightharpoonup> nat) \<times> store" where
  "upsert_questions now cur qtexts =
     (let qs = foldl (insert_or_ignore_question now) (questions cur) qtexts
      in (question_dict qs, cur\<lparr>questions := qs\<rparr>))"

subsection \<open>Answers\<close>

definition answer_key :: "answer_row \<Rightarrow> nat \<times> nat" where
  "answer_key r = (a_question_id r, a_model_id r)"

text \<open>
  The statement of \<open>insert_or_update_answers\<close>. A row that holds the pair already is the
  conflict of \<open>ON CONFLICT(question_id, model_id)\<close>: its text and timestamp are overwritten.
  Otherwise the row is inserted, and with \<open>PRAGMA foreign_keys=ON\<close> the insert fails unless
  both parents exist.
\<close>

definition upsert_answer :: "timestamp \<Rightarrow> nat \<Rightarrow> nat \<Rightarrow> ustr \<Rightarrow> store \<Rightarrow> error + store" where
  "upsert_answer now qid mid a cur =
     (if (qid, mid) \<in> set (map answer_key (answers cur))
      then Inr (cur\<lparr>answers :=
                  map (\<lambda>r. if answer_key r = (qid, mid)
                            then r\<lparr>a_answer_text := a, a_created_at := now\<rparr> else r)
                    (answers cur)\<rparr>)
      else if qid \<in> set (map q_id (questions cur)) \<and> mid \<in> set (map m_id (models cur))
      then Inr (cur\<lparr>answers := answers cur @
                  [\<lparr>a_id = next_rowid (map a_id (answers cur)), a_question_id = qid,
                    a_model_id = mid, a_answer_text = a, a_tokens_used = None,
                    a_latency_ms = None, a_created_at = now\<rparr>]\<rparr>)
      else Inl IntegrityError)"

text \<open>Python's truth value of an optional string: \<open>None\<close> and \<open>""\<close> are false.\<close>

definition truthy :: "ustr option \<Rightarrow> bool" where
  "truthy v = (case v of None \<Rightarrow> False | Some s \<Rightarrow> s \<noteq> [])"

definition passes_guard :: "long_record \<Rightarrow> bool" where
  "passes_guard r \<longleftrightarrow> truthy (question_text r) \<and> truthy (model_name r) \<and> truthy (answer_text r)"

text \<open>
  The loop of \<open>insert_or_update_answers\<close>, with the counter \<open>n\<close> and the store threaded
  through. An exception leaves the loop with the store as the statements before it made
  it; \<open>qid_map[q]\<close> is evaluated before \<open>model_map[m]\<close>.
\<close>

fun answers_loop ::
  "timestamp \<Rightarrow> (ustr \<rightharpoonup> nat) \<Rightarrow> (ustr \<rightharpoonup> nat) \<Rightarrow> long_record list \<Rightarrow> nat \<Rightarrow> store
     \<Rightarrow> (error + nat) \<times> store" where
  "answers_loop now qid_map model_map [] n cur = (Inr n, cur)"
| "answers_loop now qid_map model_map (r # rs) n cur =
     (if \<not> passes_guard r then answers_loop now qid_map model_map rs n cur
      else
        (case qid_map (the (question_text r)) of
           None \<Rightarrow> (Inl (KeyError (the (question_text r))), cur)
         | Some qid \<Rightarrow>
             (case model_map (the (model_name r)) of
                None \<Rightarrow> (Inl (KeyError (the (model_name r))), cur)
              | Some mid \<Rightarrow>
                  (case upsert_answer now qid mid (the (answer_text r)) cur of
                     Inl e \<Rightarrow> (Inl e, cur)
                   | Inr cur' \<Rightarrow> answers_loop now qid_map model_map rs (n + 1) cur'))))"

definition insert_or_update_answers ::
  "timestamp \<Rightarrow> store \<Rightarrow> long_record list \<Rightarrow> (ustr \<rightharpoonup> nat) \<Rightarrow> (ustr \<rightharpoonup> nat)
     \<Rightarrow> (error + nat) \<times> store" where
  "insert_or_update_answers now cur rows qid_map model_map =
     answers_loop now qid_map model_map rows 0 cur"

subsection \<open>The load of \<open>main\<close>\<close>

text \<open>
  \<open>Series.dropna()\<close> and \<open>Series.unique()\<close>: the values that are not missing, and the
  distinct values in the order of their first occurrence.
\<close>

fun dropna :: "'a option list \<Rightarrow> 'a list" where
  "dropna [] = []"
| "dropna (None # xs) = dropna xs"
| "dropna (Some x # xs) = x # dropna xs"

definition unique :: "'a list \<Rightarrow> 'a list" where
  "unique xs = rev (remdups (rev xs))"

text \<open>The \<open>try\<close> block of \<open>main\<close> up to the commit, on the long table \<open>long_df\<close>.\<close>

definition load ::
  "timestamp \<Rightarrow> timestamp \<Rightarrow> store option \<Rightarrow> bool \<Rightarrow> long_record list \<Rightarrow> (error + nat) \<times> store" where
  "load now_q now_a con with_fts long_df =
     (let cur0 = create_schema con with_fts;
          (model_map, cur1) = upsert_model_ids cur0 (unique (dropna (map model_name long_df)));
          (qid_map, cur2) =
             upsert_questions now_q cur1 (unique (dropna (map question_text long_df)))
      in insert_or_update_answers now_a cur2 long_df qid_map model_map)"


text \<open>
  Any sequence of calls on the store: the schema step again, the three upsert phases with
  arguments of any kind, and whole loads.
\<close>

datatype call =
    Create_schema bool
  | Upsert_model_ids "ustr list"
  | Upsert_questions timestamp "ustr list"
  | Insert_or_update_answers timestamp "long_record list" "ustr \<rightharpoonup> nat" "ustr \<rightharpoonup> nat"
  | Load timestamp timestamp bool "long_record list"

fun run_call :: "store \<Rightarrow> call \<Rightarrow> store" where
  "run_call cur (Create_schema with_fts) = create_schema (Some cur) with_fts"
| "run_call cur (Upsert_model_ids model_names) = snd (upsert_model_ids cur model_names)"
| "run_call cur (Upsert_questions now qtexts) = snd (upsert_questions now cur qtexts)"
| "run_call cur (Insert_or_update_answers now rows qid_map model_map) =
     snd (insert_or_update_answers now cur rows qid_map model_map)"
| "run_call cur (Load now_q now_a with_fts long_df) =
     snd (load now_q now_a (Some cur) with_fts long_df)"

definition run_calls :: "bool \<Rightarrow> call list \<Rightarrow> store" where
  "run_calls with_fts calls = foldl run_call (create_schema None with_fts) calls"

section \<open>The tabular reader\<close>

text \<open>
  A pandas frame: the column labels and the rows, each row holding one cell per column. A
  cell is \<open>None\<close> or the text that \<open>str()\<close> makes of its value (for a missing cell, which
  pandas holds as NaN, that text is \<open>nan\<close>). The readers of pandas give a frame distinct
  labels and rows as long as the label list.

  The file itself is outside the program: \<open>read_excel\<close> is the outcome of
  \<open>pd.read_excel(path, sheet_name=...)\<close> on the file for each sheet selector, and
  \<open>read_csv\<close> the outcome of the delimiter sniffing and \<open>pd.read_csv\<close> on it, each either
  a failure of the reader or a frame.
\<close>

record dataframe =
  columns :: "ustr list"
  cells :: "ustr option list list"

datatype sheet = Sheet_index nat | Sheet_name ustr

datatype 'e read_error =
    Unsupported_file_type ustr
  | Expected_at_least_2_columns
  | Reader_error 'e
  | Ambiguous_question_text

text \<open>
  \<open>str.lower()\<close> on the letters A to Z. No other character has a lower-case form made
  of the letters of \<open>.xlsx\<close>, \<open>.xls\<close> and \<open>.csv\<close>, so the comparisons of \<open>read_table\<close>
  come out as in Python for every suffix.
\<close>

definition lower :: "ustr \<Rightarrow> ustr" where
  "lower s = map (\<lambda>c. if 65 \<le> c \<and> c \<le> 90 then c + 32 else c) s"

definition load_table ::
  "(sheet \<Rightarrow> 'e + dataframe) \<Rightarrow> ('e + dataframe) \<Rightarrow> ustr \<Rightarrow> sheet option
     \<Rightarrow> 'e read_error + dataframe" where
  "load_table read_excel read_csv suffix sheet_sel =
     (if lower suffix = ascii ''.xlsx'' \<or> lower suffix = ascii ''.xls''
      then (case read_excel (case sheet_sel of None \<Rightarrow> Sheet_index 0 | Some sh \<Rightarrow> sh) of
              Inl e \<Rightarrow> Inl (Reader_error e) | Inr df \<Rightarrow> Inr df)
      else if lower suffix = ascii ''.csv''
      then (case read_csv of Inl e \<Rightarrow> Inl (Reader_error e) | Inr df \<Rightarrow> Inr df)
      else Inl (Unsupported_file_type suffix))"

definition question_text_label :: ustr where
  "question_text_label = ascii ''question_text''"

text \<open>The question column: the named one if it is a label of the frame, else the first.\<close>

definition question_column :: "ustr option \<Rightarrow> ustr list \<Rightarrow> ustr" where
  "question_column question_col labels =
     (if truthy question_col \<and> the question_col \<in> set labels then the question_col
      else hd labels)"

text \<open>\<open>df.rename(columns={qcol: "question_text"})\<close>.\<close>

definition rename_question :: "ustr \<Rightarrow> ustr list \<Rightarrow> ustr list" where
  "rename_question qcol labels = map (\<lambda>c. if c = qcol then question_text_label else c) labels"

definition index_of :: "'a \<Rightarrow> 'a list \<Rightarrow> nat" where
  "index_of x xs = length (takeWhile (\<lambda>y. y \<noteq> x) xs)"

text \<open>
  The rows after \<open>df["question_text"].apply(clean_text)\<close> and
  \<open>df.dropna(subset=["question_text"])\<close>; \<open>qi\<close> is the position of the question column.
\<close>

definition drop_no_question :: "nat \<Rightarrow> ustr option list list \<Rightarrow> ustr option list list" where
  "drop_no_question qi rows =
     filter (\<lambda>row. row ! qi \<noteq> None) (map (\<lambda>row. row[qi := clean_text (row ! qi)]) rows)"

text \<open>\<open>model_cols\<close>: the columns whose label is not \<open>question_text\<close>, by position.\<close>

definition model_cols :: "ustr list \<Rightarrow> nat list" where
  "model_cols labels = filter (\<lambda>j. labels ! j \<noteq> question_text_label) [0..<length labels]"

text \<open>
  \<open>df.melt(id_vars=["question_text"], value_vars=model_cols, ...)\<close>: pandas repeats the
  identifier column once for each value column, repeats each value column's label once
  for each row, and lays the value columns out one after the other.
\<close>

definition melt :: "ustr list \<Rightarrow> nat \<Rightarrow> ustr option list list \<Rightarrow> long_record list" where
  "melt labels qi rows =
     concat (map (\<lambda>j. map (\<lambda>row. \<lparr>question_text = row ! qi, model_name = Some (labels ! j),
                                   answer_text = row ! j\<rparr>) rows)
               (model_cols labels))"

text \<open>
  \<open>long_df["model_name"].astype(str).str.strip()\<close> and
  \<open>long_df["answer_text"].apply(clean_text)\<close>.
\<close>

definition clean_long :: "long_record \<Rightarrow> long_record" where
  "clean_long r =
     r\<lparr>model_name := map_option strip (model_name r), answer_text := clean_text (answer_text r)\<rparr>"

text \<open>
  The long table before the empty-answer policy. Two columns labelled \<open>question_text\<close>
  after the renaming make \<open>df["question_text"]\<close> a frame instead of a column; pandas does
  not complete the assignment of line 197 then, and the model ends with
  \<open>Ambiguous_question_text\<close>.
\<close>

definition reshape :: "ustr option \<Rightarrow> dataframe \<Rightarrow> 'e read_error + long_record list" where
  "reshape question_col df =
     (let labels = rename_question (question_column question_col (columns df)) (columns df);
          qi = index_of question_text_label labels
      in if count_list labels question_text_label \<noteq> 1 then Inl Ambiguous_question_text
         else Inr (map clean_long (melt labels qi (drop_no_question qi (cells df)))))"

definition read_table ::
  "(sheet \<Rightarrow> 'e + dataframe) \<Rightarrow> ('e + dataframe) \<Rightarrow> ustr \<Rightarrow> sheet option \<Rightarrow> ustr option \<Rightarrow> bool
     \<Rightarrow> 'e read_error + long_record list" where
  "read_table read_excel read_csv suffix sheet_sel question_col keep_empty_answers =
     (case load_table read_excel read_csv suffix sheet_sel of
        Inl e \<Rightarrow> Inl e
      | Inr df \<Rightarrow>
          if length (columns df) < 2 then Inl Expected_at_least_2_columns
          else
            (case reshape question_col df of
               Inl e \<Rightarrow> Inl e
             | Inr long_df \<Rightarrow>
                 Inr (if keep_empty_answers then long_df
                      else filter (\<lambda>r. answer_text r \<noteq> None) long_df)))"

text \<open>
  The order the specification asks of the reshape step, for comparison: the records of the
  first row over all model columns, then those of the second row, and so on.
\<close>

definition row_major :: "ustr list \<Rightarrow> nat \<Rightarrow> ustr option list list \<Rightarrow> long_record list" where
  "row_major labels qi rows =
     concat (map (\<lambda>row. map (\<lambda>j. \<lparr>question_text = row ! qi, model_name = Some (labels ! j),
                                   answer_text = row ! j\<rparr>) (model_cols labels))
               rows)"

section \<open>Notions used in the proofs\<close>

text \<open>
  A line as \<open>clean_text\<close> leaves it: no line boundary and no non-breaking space in it, and
  no white space at its end.
\<close>

definition plain_line :: "ustr \<Rightarrow> bool" where
  "plain_line l \<longleftrightarrow> list_all (\<lambda>c. \<not> is_linebreak c \<and> c \<noteq> NBSP) l \<and> (l = [] \<or> \<not> is_space (last l))"

text \<open>
  The key \<open>(qid_map[q], model_map[m])\<close> of a record, the statement of the loop on the
  table alone, the list of the statements a run of the loop executes (with the exception
  that ends it, if one does), and the text that a list of statements writes last under a
  key.
\<close>

definition resolved_key :: "(ustr \<rightharpoonup> nat) \<Rightarrow> (ustr \<rightharpoonup> nat) \<Rightarrow> long_record \<Rightarrow> nat \<times> nat" where
  "resolved_key qid_map model_map r =
     (the (qid_map (the (question_text r))), the (model_map (the (model_name r))))"

definition table_upsert :: "timestamp \<Rightarrow> answer_row list \<Rightarrow> (nat \<times> nat) \<times> ustr \<Rightarrow> answer_row list" where
  "table_upsert now t u =
     (if fst u \<in> set (map answer_key t)
      then map (\<lambda>r. if answer_key r = fst u
                     then r\<lparr>a_answer_text := snd u, a_created_at := now\<rparr> else r) t
      else t @ [\<lparr>a_id = next_rowid (map a_id t), a_question_id = fst (fst u),
                 a_model_id = snd (fst u), a_answer_text = snd u, a_tokens_used = None,
                 a_latency_ms = None, a_created_at = now\<rparr>])"

fun executed ::
  "(ustr \<rightharpoonup> nat) \<Rightarrow> (ustr \<rightharpoonup> nat) \<Rightarrow> nat set \<Rightarrow> nat set \<Rightarrow> long_record list
     \<Rightarrow> (nat \<times> nat) set \<Rightarrow> ((nat \<times> nat) \<times> ustr) list \<times> error option" where
  "executed qid_map model_map qids mids [] ks = ([], None)"
| "executed qid_map model_map qids mids (r # rs) ks =
     (if \<not> passes_guard r then executed qid_map model_map qids mids rs ks
      else
        (case qid_map (the (question_text r)) of
           None \<Rightarrow> ([], Some (KeyError (the (question_text r))))
         | Some qid \<Rightarrow>
             (case model_map (the (model_name r)) of
                None \<Rightarrow> ([], Some (KeyError (the (model_name r))))
              | Some mid \<Rightarrow>
                  if (qid, mid) \<in> ks \<or> (qid \<in> qids \<and> mid \<in> mids)
                  then (let (us, e) = executed qid_map model_map qids mids rs (insert (qid, mid) ks)
                        in (((qid, mid), the (answer_text r)) # us, e))
                  else ([], Some IntegrityError))))"

definition outcome :: "nat \<Rightarrow> 'u list \<times> error option \<Rightarrow> error + nat" where
  "outcome n x = (case snd x of None \<Rightarrow> Inr (n + length (fst x)) | Some e \<Rightarrow> Inl e)"

definition last_write :: "((nat \<times> nat) \<times> ustr) list \<Rightarrow> nat \<times> nat \<Rightarrow> ustr option" where
  "last_write us k = map_of (rev us) k"


text \<open>
  A record whose question and model are keys of the identity maps, with identities that
  are rows of \<open>questions\<close> and \<open>models\<close>.
\<close>

definition resolves :: "(ustr \<rightharpoonup> nat) \<Rightarrow> (ustr \<rightharpoonup> nat) \<Rightarrow> store \<Rightarrow> long_record \<Rightarrow> bool" where
  "resolves qid_map model_map cur r =
     (case qid_map (the (question_text r)) of
        None \<Rightarrow> False
      | Some qid \<Rightarrow>
          (case model_map (the (model_name r)) of
             None \<Rightarrow> False
           | Some mid \<Rightarrow> qid \<in> set (map q_id (questions cur)) \<and>
                        mid \<in> set (map m_id (models cur))))"

text \<open>
  The labels of a frame after the renaming of the question column, and its rows after the
  rows without a question text are dropped.
\<close>

definition renamed_labels :: "ustr option \<Rightarrow> dataframe \<Rightarrow> ustr list" where
  "renamed_labels question_col df =
     rename_question (question_column question_col (columns df)) (columns df)"

definition question_rows :: "ustr option \<Rightarrow> dataframe \<Rightarrow> ustr option list list" where
  "question_rows question_col df =
     drop_no_question (index_of question_text_label (renamed_labels question_col df)) (cells df)"

section \<open>Examples\<close>

text \<open>
  A store with one question and one model, and a batch of three records for them: the
  second has no question and the third repeats the pair of the first.
\<close>

definition ex_store :: store where
  "ex_store = \<lparr>questions = [\<lparr>q_id = 1, q_text = [81], q_created_at = 3\<rparr>],
               models = [\<lparr>m_id = 1, m_name = [77]\<rparr>], answers = []\<rparr>"

definition ex_batch :: "long_record list" where
  "ex_batch =
     [\<lparr>question_text = Some [81], model_name = Some [77], answer_text = Some [97]\<rparr>,
      \<lparr>question_text = None, model_name = Some [77], answer_text = Some [98]\<rparr>,
      \<lparr>question_text = Some [81], model_name = Some [77], answer_text = Some [99]\<rparr>]"

definition ex_qid_map :: "ustr \<rightharpoonup> nat" where
  "ex_qid_map = [[81] \<mapsto> 1]"

definition ex_model_map :: "ustr \<rightharpoonup> nat" where
  "ex_model_map = [[77] \<mapsto> 1]"

definition ex_answer :: "timestamp \<Rightarrow> answer_row" where
  "ex_answer now = \<lparr>a_id = 1, a_question_id = 1, a_model_id = 1, a_answer_text = [99],
                    a_tokens_used = None, a_latency_ms = None, a_created_at = now\<rparr>"

text \<open>
  A frame with a question column and two model columns, two rows, one cell of a blank
  and one missing cell, and its long table.
\<close>

definition ex_frame :: dataframe where
  "ex_frame = \<lparr>columns = [[113], [109], [110]],
               cells = [[Some [49], Some [97], Some [32]],
                        [Some [50], None, Some [100]]]\<rparr>"

definition ex_long :: "long_record list" where
  "ex_long =
     [\<lparr>question_text = Some [49], model_name = Some [109], answer_text = Some [97]\<rparr>,
      \<lparr>question_text = Some [50], model_name = Some [109], answer_text = None\<rparr>,
      \<lparr>question_text = Some [49], model_name = Some [110], answer_text = None\<rparr>,
      \<lparr>question_text = Some [50], model_name = Some [110], answer_text = Some [100]\<rparr>]"

section \<open>The text normalizer: properties\<close>

text \<open>
  Claim C4, as the code has it. On the string of two spaces, \<open>a\<close>, CR, LF, \<open>b\<close>, a space,
  U+00A0, a space, LF and two spaces, the result of \<open>clean_text\<close> is \<open>a\<close>, LF, LF, \<open>b\<close>: the
  carriage return becomes a line feed of its own next to the line feed that follows it, so
  an empty line stays between \<open>a\<close> and \<open>b\<close>. On the empty string and on an absent input the
  result is absent.
\<close>

theorem clean_text_example:
  "clean_text (Some [32, 32, 97, 13, 10, 98, 32, 160, 32, 10, 32, 32]) = Some [97, 10, 10, 98] \<and>
   clean_text (Some []) = None \<and> clean_text None = None"
  by (simp add: clean_text_def replace_char_def CR_def LF_def NBSP_def SPACE_def
      is_linebreak_def is_space_def rstrip_def lstrip_def strip_def)

text \<open>
  The result the specification gives for that string, \<open>a\<close>, LF, \<open>b\<close>, is not what the code
  returns.
\<close>

theorem clean_text_example_not_spec:
  "clean_text (Some [32, 32, 97, 13, 10, 98, 32, 160, 32, 10, 32, 32]) \<noteq> Some [97, 10, 98]"
  by (simp add: clean_text_def replace_char_def CR_def LF_def NBSP_def SPACE_def
      is_linebreak_def is_space_def rstrip_def lstrip_def strip_def)

lemma is_space_LF: "is_space LF" by (simp add: is_space_def LF_def)
lemma is_linebreak_LF: "is_linebreak LF" by (simp add: is_linebreak_def LF_def)
lemma is_linebreak_CR: "is_linebreak CR" by (simp add: is_linebreak_def CR_def)
lemma LF_neq_CR: "LF \<noteq> CR" by (simp add: LF_def CR_def)
lemma LF_neq_NBSP: "LF \<noteq> NBSP" by (simp add: LF_def NBSP_def)
lemma linebreak_is_space: "is_linebreak c \<Longrightarrow> is_space c"
  by (auto simp: is_linebreak_def is_space_def)

lemma rstrip_id: "l = [] \<or> \<not> is_space (last l) \<Longrightarrow> rstrip l = l"
  by (cases l rule: rev_cases) (auto simp: rstrip_def)

lemma rstrip_end: "rstrip s = [] \<or> \<not> is_space (last (rstrip s))"
proof -
  have "dropWhile is_space (rev s) = [] \<or> \<not> is_space (hd (dropWhile is_space (rev s)))"
    using hd_dropWhile by blast
  then show ?thesis by (auto simp: rstrip_def last_rev)
qed

lemma set_rstrip: "set (rstrip s) \<subseteq> set s"
  unfolding rstrip_def using set_dropWhileD by fastforce

lemma splitlines_no_break:
  "list_all (\<lambda>l. list_all (\<lambda>c. \<not> is_linebreak c) l) (splitlines s)"
  by (induction s rule: splitlines.induct) (auto split: list.splits)

lemma list_all_drop_lf: "list_all P cs \<Longrightarrow> list_all P (drop_lf cs)"
  by (cases cs) auto

lemma splitlines_chars: "list_all P s \<Longrightarrow> list_all (list_all P) (splitlines s)"
  by (induction s rule: splitlines.induct) (auto split: list.splits simp: list_all_drop_lf)

lemma plain_line_rstrip:
  assumes "list_all (\<lambda>c. \<not> is_linebreak c \<and> c \<noteq> NBSP) l"
  shows "plain_line (rstrip l)"
proof -
  from assms have "list_all (\<lambda>c. \<not> is_linebreak c \<and> c \<noteq> NBSP) (rstrip l)"
    using set_rstrip [of l] by (auto simp: list_all_iff)
  with rstrip_end [of l] show ?thesis by (simp add: plain_line_def)
qed

lemma replace_no_CR: "list_all (\<lambda>c. c \<noteq> CR) (replace_char CR LF s)"
  by (induction s) (auto simp: replace_char_def LF_neq_CR)

lemma replace_no_NBSP: "list_all (\<lambda>c. c \<noteq> NBSP) (replace_char NBSP SPACE s)"
  by (induction s) (auto simp: replace_char_def NBSP_def SPACE_def)

lemma replace_char_id: "list_all (\<lambda>c. c \<noteq> a) s \<Longrightarrow> replace_char a b s = s"
  by (induction s) (auto simp: replace_char_def)

lemma lines_plain:
  "list_all plain_line (map rstrip (splitlines (replace_char NBSP SPACE s)))"
proof -
  have "list_all (list_all (\<lambda>c. c \<noteq> NBSP)) (splitlines (replace_char NBSP SPACE s))"
    by (rule splitlines_chars [OF replace_no_NBSP])
  with splitlines_no_break [of "replace_char NBSP SPACE s"]
  have "list_all (\<lambda>l. list_all (\<lambda>c. \<not> is_linebreak c \<and> c \<noteq> NBSP) l)
          (splitlines (replace_char NBSP SPACE s))"
    by (auto simp: list_all_iff)
  then show ?thesis
    by (auto simp: list_all_iff intro: plain_line_rstrip [unfolded list_all_iff])
qed


lemma join_lf_Cons: "ls \<noteq> [] \<Longrightarrow> join_lf (l # ls) = l @ LF # join_lf ls"
  by (cases ls) auto

lemma join_lf_snoc: "ls \<noteq> [] \<Longrightarrow> join_lf (ls @ [l]) = join_lf ls @ LF # l"
  by (induction ls rule: join_lf.induct) auto

lemma plain_line_lstrip: "plain_line l \<Longrightarrow> plain_line (lstrip l)"
proof -
  assume p: "plain_line l"
  have sub: "set (lstrip l) \<subseteq> set l"
    unfolding lstrip_def using set_dropWhileD by fastforce
  have "lstrip l = [] \<or> last (lstrip l) = last l"
    unfolding lstrip_def by (induction l) auto
  moreover have "lstrip l \<noteq> [] \<Longrightarrow> l \<noteq> []" by (auto simp: lstrip_def)
  ultimately show ?thesis using p sub by (auto simp: plain_line_def list_all_iff)
qed

lemma plain_line_spaces: "plain_line l \<Longrightarrow> list_all is_space l \<Longrightarrow> l = []"
  by (cases l rule: rev_cases) (auto simp: plain_line_def)

lemma lstrip_join_lf:
  "list_all plain_line ls \<Longrightarrow> \<exists>ls'. lstrip (join_lf ls) = join_lf ls' \<and> list_all plain_line ls'"
proof (induction ls rule: join_lf.induct)
  case 1
  show ?case by (rule exI [of _ "[]"]) (simp add: lstrip_def)
next
  case (2 l)
  show ?case using 2 by (intro exI [of _ "[lstrip l]"]) (simp add: plain_line_lstrip)
next
  case (3 l k ks)
  show ?case
  proof (cases "l = []")
    case True
    then have "lstrip (join_lf (l # k # ks)) = lstrip (join_lf (k # ks))"
      by (simp add: lstrip_def is_space_LF)
    with 3 show ?thesis by auto
  next
    case False
    with 3 have "\<not> list_all is_space l" using plain_line_spaces by auto
    then have "lstrip (join_lf (l # k # ks)) = lstrip l @ LF # join_lf (k # ks)"
      by (auto simp: lstrip_def dropWhile_append1 list_all_iff)
    moreover have "lstrip l \<noteq> []" using \<open>\<not> list_all is_space l\<close>
      by (auto simp: lstrip_def list_all_iff)
    ultimately have "lstrip (join_lf (l # k # ks)) = join_lf (lstrip l # k # ks)" by simp
    moreover have "list_all plain_line (lstrip l # k # ks)"
      using 3 by (simp add: plain_line_lstrip)
    ultimately show ?thesis by blast
  qed
qed

lemma rstrip_join_lf:
  "list_all plain_line ls \<Longrightarrow> \<exists>ls'. rstrip (join_lf ls) = join_lf ls' \<and> list_all plain_line ls'"
proof (induction ls rule: rev_induct)
  case Nil
  show ?case by (rule exI [of _ "[]"]) (simp add: rstrip_def)
next
  case (snoc l ks)
  show ?case
  proof (cases "ks = []")
    case True
    with snoc have "rstrip (join_lf (ks @ [l])) = join_lf [l]"
      by (simp add: rstrip_id plain_line_def)
    with snoc show ?thesis by (intro exI [of _ "[l]"]) simp
  next
    case False
    note ks = this
    show ?thesis
    proof (cases "l = []")
      case True
      with ks have "rstrip (join_lf (ks @ [l])) = rstrip (join_lf ks)"
        by (simp add: join_lf_snoc rstrip_def is_space_LF)
      with snoc show ?thesis by auto
    next
      case False
      with snoc have "\<not> is_space (last l)" by (simp add: plain_line_def)
      with False ks have "rstrip (join_lf (ks @ [l])) = join_lf (ks @ [l])"
        by (intro rstrip_id) (simp add: join_lf_snoc)
      with snoc show ?thesis by blast
    qed
  qed
qed

lemma strip_join_lf:
  assumes "list_all plain_line ls"
  shows "\<exists>ls'. strip (join_lf ls) = join_lf ls' \<and> list_all plain_line ls'"
proof -
  from lstrip_join_lf [OF assms] obtain ks
    where ks: "lstrip (join_lf ls) = join_lf ks" "list_all plain_line ks" by blast
  from rstrip_join_lf [OF ks(2)] ks(1) show ?thesis by (simp add: strip_def)
qed

lemma splitlines_plain_if:
  "list_all (\<lambda>c. \<not> is_linebreak c) l \<Longrightarrow> splitlines l = (if l = [] then [] else [l])"
  by (induction l) (auto split: list.splits)

lemma splitlines_plain:
  "list_all (\<lambda>c. \<not> is_linebreak c) l \<Longrightarrow> l \<noteq> [] \<Longrightarrow> splitlines l = [l]"
  by (simp add: splitlines_plain_if)

lemma splitlines_plain_LF:
  "list_all (\<lambda>c. \<not> is_linebreak c) l \<Longrightarrow> splitlines (l @ LF # r) = l # splitlines r"
  by (induction l) (auto simp: is_linebreak_LF LF_neq_CR)

lemma splitlines_join_lf:
  "list_all plain_line ls \<Longrightarrow> ls = [] \<or> last ls \<noteq> [] \<Longrightarrow> splitlines (join_lf ls) = ls"
proof (induction ls rule: join_lf.induct)
  case 1
  show ?case by simp
next
  case (2 l)
  then show ?case by (auto simp: plain_line_def list_all_iff intro!: splitlines_plain)
next
  case (3 l k ks)
  then have "list_all (\<lambda>c. \<not> is_linebreak c) l" by (auto simp: plain_line_def list_all_iff)
  from splitlines_plain_LF [OF this] 3 show ?case by simp
qed

lemma last_join_lf: "ls \<noteq> [] \<Longrightarrow> last ls = [] \<Longrightarrow> join_lf ls \<noteq> [] \<Longrightarrow> last (join_lf ls) = LF"
  by (induction ls rule: join_lf.induct) auto

lemma strip_ends: "strip s = [] \<or> (\<not> is_space (hd (strip s)) \<and> \<not> is_space (last (strip s)))"
proof (cases "strip s = []")
  case True
  then show ?thesis by simp
next
  case False
  then have ne: "lstrip s \<noteq> []" by (auto simp: strip_def rstrip_def)
  then have h: "\<not> is_space (hd (lstrip s))"
    unfolding lstrip_def using hd_dropWhile by blast
  have "hd (rstrip (lstrip s)) = hd (lstrip s)"
  proof -
    have "\<not> list_all is_space (lstrip s)" using h ne by (cases "lstrip s") auto
    then have "\<not> list_all is_space (rev (lstrip s))" by (simp add: list_all_iff)
    then obtain a b where ab: "rev (lstrip s) = a @ b" "list_all is_space a" "b \<noteq> []" "\<not> is_space (hd b)"
      by (metis takeWhile_dropWhile_id list_all_iff set_takeWhileD hd_dropWhile dropWhile_eq_Nil_conv)
    then have "dropWhile is_space (rev (lstrip s)) = b"
      by (cases b) (auto simp: list_all_iff dropWhile_append)
    moreover from ab(1) have "lstrip s = rev b @ rev a" by (metis rev_append rev_rev_ident)
    ultimately show ?thesis using ab(3) by (simp add: rstrip_def)
  qed
  with h rstrip_end [of "lstrip s"] False show ?thesis by (simp add: strip_def)
qed

lemma strip_id: "s = [] \<or> (\<not> is_space (hd s) \<and> \<not> is_space (last s)) \<Longrightarrow> strip s = s"
  by (cases s) (auto simp: strip_def lstrip_def intro!: rstrip_id)


lemma join_lf_chars: "list_all (list_all P) ls \<Longrightarrow> P LF \<Longrightarrow> list_all P (join_lf ls)"
  by (induction ls rule: join_lf.induct) auto

lemma plain_line_chars:
  "list_all plain_line ls \<Longrightarrow> list_all (list_all (\<lambda>c. c \<noteq> CR \<and> c \<noteq> NBSP)) ls"
  using is_linebreak_CR by (auto simp: plain_line_def list_all_iff)

lemma clean_text_fixed:
  assumes t: "t = join_lf ls" and ls: "list_all plain_line ls" and ne: "t \<noteq> []"
    and ends: "\<not> is_space (hd t)" "\<not> is_space (last t)"
  shows "clean_text (Some t) = Some t"
proof -
  have "list_all (\<lambda>c. c \<noteq> CR \<and> c \<noteq> NBSP) t"
    unfolding t using plain_line_chars [OF ls] LF_neq_CR LF_neq_NBSP by (intro join_lf_chars) auto
  then have "list_all (\<lambda>c. c \<noteq> CR) t" "list_all (\<lambda>c. c \<noteq> NBSP) t"
    by (auto simp: list_all_iff)
  then have r: "replace_char NBSP SPACE (replace_char CR LF t) = t"
    by (simp add: replace_char_id)
  have "ls = [] \<or> last ls \<noteq> []"
    using last_join_lf [of ls] ne ends(2) is_space_LF unfolding t by auto
  then have sp: "splitlines t = ls" unfolding t by (rule splitlines_join_lf [OF ls])
  have "map rstrip ls = ls"
    using ls by (induction ls) (auto simp: plain_line_def intro: rstrip_id)
  with sp have "join_lf (map rstrip (splitlines t)) = t" by (simp add: t)
  moreover have "strip t = t" using ends by (intro strip_id) simp
  ultimately show ?thesis using r ne by (simp add: clean_text_def Let_def)
qed

lemma clean_text_Some:
  assumes "clean_text x = Some t"
  shows "\<exists>ls. t = join_lf ls \<and> list_all plain_line ls \<and> t \<noteq> [] \<and>
           \<not> is_space (hd t) \<and> \<not> is_space (last t)"
proof -
  from assms obtain s where x: "x = Some s" by (cases x) (auto simp: clean_text_def)
  define ks where "ks = map rstrip (splitlines (replace_char NBSP SPACE (replace_char CR LF s)))"
  from assms have t: "t = strip (join_lf ks)" and ne: "t \<noteq> []"
    by (auto simp: x clean_text_def Let_def ks_def split: if_splits)
  have "list_all plain_line ks" unfolding ks_def by (rule lines_plain)
  from strip_join_lf [OF this] obtain ls
    where "strip (join_lf ks) = join_lf ls" "list_all plain_line ls" by blast
  with t ne strip_ends [of "join_lf ks"] show ?thesis by auto
qed

lemma clean_text_idem: "clean_text (clean_text x) = clean_text x"
proof (cases "clean_text x")
  case None
  then show ?thesis by (simp add: clean_text_def)
next
  case (Some t)
  from clean_text_Some [OF this] clean_text_fixed Some show ?thesis by auto
qed

text \<open>
  Claim C10. \<open>clean_text\<close> is idempotent, with an absent input mapped to an absent result,
  and every result that is not absent is a fixed point: it is not empty, holds no carriage
  return and no non-breaking space, has no white space at the end of any of its lines, and
  neither begins nor ends with white space.
\<close>

theorem clean_text_idempotent:
  "clean_text (clean_text x) = clean_text x \<and> clean_text None = None \<and>
   (\<forall>t. clean_text x = Some t \<longrightarrow>
      clean_text (Some t) = Some t \<and> t \<noteq> [] \<and> CR \<notin> set t \<and> NBSP \<notin> set t \<and>
      list_all (\<lambda>l. rstrip l = l) (splitlines t) \<and>
      \<not> is_space (hd t) \<and> \<not> is_space (last t))"
proof (intro conjI allI impI)
  show "clean_text (clean_text x) = clean_text x" by (rule clean_text_idem)
  show "clean_text None = None" by (simp add: clean_text_def)
next
  fix t assume a: "clean_text x = Some t"
  from clean_text_Some [OF a] obtain ls where ls: "t = join_lf ls" "list_all plain_line ls"
    and ne: "t \<noteq> []" and ends: "\<not> is_space (hd t)" "\<not> is_space (last t)" by blast
  show "clean_text (Some t) = Some t" using clean_text_fixed [OF ls ne ends] .
  show "t \<noteq> []" by (rule ne)
  show "\<not> is_space (hd t)" "\<not> is_space (last t)" by (rule ends)+
  have "list_all (\<lambda>c. c \<noteq> CR \<and> c \<noteq> NBSP) t"
    unfolding ls(1) using plain_line_chars [OF ls(2)] LF_neq_CR LF_neq_NBSP
    by (intro join_lf_chars) auto
  then show "CR \<notin> set t" "NBSP \<notin> set t" by (auto simp: list_all_iff)
  have "ls = [] \<or> last ls \<noteq> []"
    using last_join_lf [of ls] ne ends(2) is_space_LF unfolding ls(1) by auto
  then have "splitlines t = ls" unfolding ls(1) by (rule splitlines_join_lf [OF ls(2)])
  then show "list_all (\<lambda>l. rstrip l = l) (splitlines t)"
    using ls(2) by (auto simp: list_all_iff plain_line_def intro: rstrip_id)
qed

theorem clean_text_idempotent_witness:
  "clean_text (clean_text (Some [32, 97, 32, 13, 10, 160, 98, 32])) = clean_text (Some [32, 97, 32, 13, 10, 160, 98, 32]) \<and>
   clean_text (Some [32, 97, 32, 13, 10, 160, 98, 32]) = Some [97, 10, 10, 32, 98] \<and>
   clean_text (Some [97, 10, 10, 32, 98]) = Some [97, 10, 10, 32, 98]"
proof -
  have e: "clean_text (Some [32, 97, 32, 13, 10, 160, 98, 32]) = Some [97, 10, 10, 32, 98]"
    by (simp add: clean_text_def replace_char_def CR_def LF_def NBSP_def SPACE_def
        is_linebreak_def is_space_def rstrip_def lstrip_def strip_def)
  with clean_text_idempotent [of "Some [32, 97, 32, 13, 10, 160, 98, 32]"] show ?thesis
    by simp
qed


section \<open>The answer upsert: properties\<close>

lemma upsert_answer_table:
  "upsert_answer now qid mid a cur =
     (if (qid, mid) \<in> set (map answer_key (answers cur)) \<or>
         (qid \<in> set (map q_id (questions cur)) \<and> mid \<in> set (map m_id (models cur)))
      then Inr (cur\<lparr>answers := table_upsert now (answers cur) ((qid, mid), a)\<rparr>)
      else Inl IntegrityError)"
  by (simp add: upsert_answer_def table_upsert_def)

lemma table_upsert_keys:
  "set (map answer_key (table_upsert now t u)) = insert (fst u) (set (map answer_key t))"
proof (cases "fst u \<in> set (map answer_key t)")
  case True
  have "map answer_key (table_upsert now t u) = map answer_key t"
    using True by (auto simp: table_upsert_def answer_key_def)
  with True show ?thesis by auto
next
  case False
  then show ?thesis by (cases u) (auto simp: table_upsert_def answer_key_def)
qed

lemma table_upsert_distinct:
  "distinct (map answer_key t) \<Longrightarrow> distinct (map answer_key (table_upsert now t u))"
proof (cases "fst u \<in> set (map answer_key t)")
  case True
  assume d: "distinct (map answer_key t)"
  have "map answer_key (table_upsert now t u) = map answer_key t"
    using True by (auto simp: table_upsert_def answer_key_def)
  with d show ?thesis by simp
next
  case False
  assume d: "distinct (map answer_key t)"
  with False show ?thesis by (cases u) (auto simp: table_upsert_def answer_key_def)
qed

lemma executed_skip:
  "\<not> passes_guard r \<Longrightarrow>
   executed qid_map model_map qids mids (r # rs) ks = executed qid_map model_map qids mids rs ks"
  by simp

lemma executed_fail:
  assumes "passes_guard r" "qid_map (the (question_text r)) = Some qid"
    "model_map (the (model_name r)) = Some mid"
    "\<not> ((qid, mid) \<in> ks \<or> (qid \<in> qids \<and> mid \<in> mids))"
  shows "executed qid_map model_map qids mids (r # rs) ks = ([], Some IntegrityError)"
  using assms by auto

lemma executed_step:
  assumes "passes_guard r" "qid_map (the (question_text r)) = Some qid"
    "model_map (the (model_name r)) = Some mid"
    "(qid, mid) \<in> ks \<or> (qid \<in> qids \<and> mid \<in> mids)"
    "executed qid_map model_map qids mids rs (insert (qid, mid) ks) = (us, e)"
  shows "executed qid_map model_map qids mids (r # rs) ks =
           (((qid, mid), the (answer_text r)) # us, e)"
  using assms by auto

lemma answers_loop_executed:
  "answers_loop now qid_map model_map rows n cur =
     (let x = executed qid_map model_map (set (map q_id (questions cur)))
                (set (map m_id (models cur))) rows (set (map answer_key (answers cur)))
      in (outcome n x, cur\<lparr>answers := foldl (table_upsert now) (answers cur) (fst x)\<rparr>))"
proof (induction rows arbitrary: n cur)
  case Nil
  show ?case by (simp add: outcome_def)
next
  case (Cons r rs)
  show ?case
  proof (cases "passes_guard r")
    case False
    then show ?thesis using Cons.IH [of n cur] by simp
  next
    case True
    show ?thesis
    proof (cases "qid_map (the (question_text r))")
      case None
      with True show ?thesis by (simp add: outcome_def)
    next
      case (Some qid)
      note q = this
      show ?thesis
      proof (cases "model_map (the (model_name r))")
        case None
        with True q show ?thesis by (simp add: outcome_def)
      next
        case (Some mid)
        show ?thesis
        proof (cases "(qid, mid) \<in> set (map answer_key (answers cur)) \<or>
            (qid \<in> set (map q_id (questions cur)) \<and> mid \<in> set (map m_id (models cur)))")
          case False
          then have u: "upsert_answer now qid mid (the (answer_text r)) cur = Inl IntegrityError"
            unfolding upsert_answer_table by (rule if_not_P)
          show ?thesis
            unfolding executed_fail [where qid_map = qid_map and model_map = model_map and r = r, OF True q Some False]
            using True q Some u by (simp add: outcome_def)
        next
          case ok: True
          define cur' where "cur' = cur\<lparr>answers := table_upsert now (answers cur) ((qid, mid), the (answer_text r))\<rparr>"
          have k: "set (map answer_key (answers cur')) = insert (qid, mid) (set (map answer_key (answers cur)))"
            unfolding cur'_def using table_upsert_keys [of now "answers cur" "((qid, mid), the (answer_text r))"] by simp
          have qm: "questions cur' = questions cur" "models cur' = models cur"
            by (simp_all add: cur'_def)
          have "upsert_answer now qid mid (the (answer_text r)) cur = Inr cur'"
            unfolding upsert_answer_table cur'_def using ok by (rule if_P)
          then have step: "answers_loop now qid_map model_map (r # rs) n cur =
              answers_loop now qid_map model_map rs (n + 1) cur'"
            using True q Some by simp
          obtain us e where x: "executed qid_map model_map (set (map q_id (questions cur)))
                (set (map m_id (models cur))) rs
                (insert (qid, mid) (set (map answer_key (answers cur)))) = (us, e)"
            by (cases "executed qid_map model_map (set (map q_id (questions cur)))
                (set (map m_id (models cur))) rs
                (insert (qid, mid) (set (map answer_key (answers cur))))") blast
          show ?thesis
            unfolding step Cons.IH [of "n + 1" cur'] k qm executed_step [where qid_map = qid_map and model_map = model_map and r = r, OF True q Some ok x] x
            by (cases e) (simp_all add: outcome_def cur'_def)
        qed
      qed
    qed
  qed
qed


lemma table_upsert_present:
  "fst u \<in> set (map answer_key t) \<Longrightarrow>
   table_upsert now t u =
     map (\<lambda>r. if answer_key r = fst u then r\<lparr>a_answer_text := snd u, a_created_at := now\<rparr> else r) t"
  by (simp add: table_upsert_def)


lemma table_upsert_hit:
  "r \<in> set (table_upsert now t u) \<Longrightarrow> answer_key r = fst u \<Longrightarrow> a_answer_text r = snd u"
proof (cases "fst u \<in> set (map answer_key t)")
  case True
  assume "r \<in> set (table_upsert now t u)" "answer_key r = fst u"
  then obtain r0 where "r0 \<in> set t"
    "r = (if answer_key r0 = fst u then r0\<lparr>a_answer_text := snd u, a_created_at := now\<rparr> else r0)"
    unfolding table_upsert_present [OF True] by auto
  with \<open>answer_key r = fst u\<close> show ?thesis by (cases "answer_key r0 = fst u") auto
next
  case False
  assume "r \<in> set (table_upsert now t u)" "answer_key r = fst u"
  with False show ?thesis by (force simp: table_upsert_def)
qed

lemma table_upsert_miss:
  "r \<in> set (table_upsert now t u) \<Longrightarrow> answer_key r \<noteq> fst u \<Longrightarrow> r \<in> set t"
proof (cases "fst u \<in> set (map answer_key t)")
  case True
  assume "r \<in> set (table_upsert now t u)" "answer_key r \<noteq> fst u"
  then obtain r0 where "r0 \<in> set t"
    "r = (if answer_key r0 = fst u then r0\<lparr>a_answer_text := snd u, a_created_at := now\<rparr> else r0)"
    unfolding table_upsert_present [OF True] by auto
  with \<open>answer_key r \<noteq> fst u\<close> show ?thesis
    by (cases "answer_key r0 = fst u") (auto simp: answer_key_def)
next
  case False
  assume "r \<in> set (table_upsert now t u)" "answer_key r \<noteq> fst u"
  with False show ?thesis by (auto simp: table_upsert_def answer_key_def)
qed

lemma executed_saturated:
  "executed qid_map model_map qids mids rows ks = (us, e) \<Longrightarrow>
   executed qid_map model_map qids mids rows (ks \<union> fst ` set us) = (us, e)"
proof (induction rows arbitrary: ks us e)
  case Nil
  then show ?case by simp
next
  case (Cons r rs)
  show ?case
  proof (cases "passes_guard r")
    case False
    with Cons show ?thesis by simp
  next
    case True
    show ?thesis
    proof (cases "qid_map (the (question_text r))")
      case None
      with True Cons.prems show ?thesis by auto
    next
      case (Some qid)
      note q = this
      show ?thesis
      proof (cases "model_map (the (model_name r))")
        case None
        with True q Cons.prems show ?thesis by auto
      next
        case (Some mid)
        show ?thesis
        proof (cases "(qid, mid) \<in> ks \<or> (qid \<in> qids \<and> mid \<in> mids)")
          case False
          from Cons.prems
            executed_fail [where qid_map = qid_map and model_map = model_map and r = r, OF True q Some False]
          have "us = []" "e = Some IntegrityError" by simp_all
          with Cons.prems show ?thesis by simp
        next
          case ok: True
          obtain vs f where x: "executed qid_map model_map qids mids rs (insert (qid, mid) ks) = (vs, f)"
            by (cases "executed qid_map model_map qids mids rs (insert (qid, mid) ks)") blast
          from Cons.prems
            executed_step [where qid_map = qid_map and model_map = model_map and r = r, OF True q Some ok x]
          have us: "us = ((qid, mid), the (answer_text r)) # vs" and e: "e = f" by simp_all
          have ok': "(qid, mid) \<in> ks \<union> fst ` set us \<or> (qid \<in> qids \<and> mid \<in> mids)"
            by (simp add: us)
          have "insert (qid, mid) (ks \<union> fst ` set us) = insert (qid, mid) ks \<union> fst ` set vs"
            by (auto simp: us)
          with Cons.IH [OF x]
          have "executed qid_map model_map qids mids rs (insert (qid, mid) (ks \<union> fst ` set us)) = (vs, f)"
            by simp
          from executed_step [where qid_map = qid_map and model_map = model_map and r = r, OF True q Some ok' this]
          show ?thesis by (simp add: us e)
        qed
      qed
    qed
  qed
qed

lemma executed_all:
  "executed qid_map model_map qids mids rows ks = (us, None) \<Longrightarrow>
   us = map (\<lambda>r. (resolved_key qid_map model_map r, the (answer_text r))) (filter passes_guard rows)"
proof (induction rows arbitrary: ks us)
  case Nil
  then show ?case by simp
next
  case (Cons r rs)
  show ?case
  proof (cases "passes_guard r")
    case False
    with Cons show ?thesis by simp
  next
    case True
    show ?thesis
    proof (cases "qid_map (the (question_text r))")
      case None
      with True Cons.prems show ?thesis by auto
    next
      case (Some qid)
      note q = this
      show ?thesis
      proof (cases "model_map (the (model_name r))")
        case None
        with True q Cons.prems show ?thesis by auto
      next
        case (Some mid)
        show ?thesis
        proof (cases "(qid, mid) \<in> ks \<or> (qid \<in> qids \<and> mid \<in> mids)")
          case False
          from Cons.prems
            executed_fail [where qid_map = qid_map and model_map = model_map and r = r, OF True q Some False]
          show ?thesis by simp
        next
          case ok: True
          obtain vs f where x: "executed qid_map model_map qids mids rs (insert (qid, mid) ks) = (vs, f)"
            by (cases "executed qid_map model_map qids mids rs (insert (qid, mid) ks)") blast
          from Cons.prems
            executed_step [where qid_map = qid_map and model_map = model_map and r = r, OF True q Some ok x]
          have us: "us = ((qid, mid), the (answer_text r)) # vs" and f: "f = None" by simp_all
          from Cons.IH [OF x [unfolded f]] show ?thesis
            using True q Some by (simp add: us resolved_key_def)
        qed
      qed
    qed
  qed
qed

lemma foldl_table_upsert_keys:
  "set (map answer_key (foldl (table_upsert now) t us)) = set (map answer_key t) \<union> fst ` set us"
  by (induction us arbitrary: t) (auto simp: table_upsert_keys simp del: set_map)

lemma foldl_table_upsert_distinct:
  "distinct (map answer_key t) \<Longrightarrow> distinct (map answer_key (foldl (table_upsert now) t us))"
  by (induction us arbitrary: t) (auto simp: table_upsert_distinct)

lemma last_write_snoc:
  "last_write (us @ [u]) k = (if k = fst u then Some (snd u) else last_write us k)"
  by (cases u) (simp add: last_write_def)

lemma last_write_None: "last_write us k = None \<longleftrightarrow> k \<notin> fst ` set us"
  by (simp add: last_write_def map_of_eq_None_iff)

lemma foldl_table_upsert_text:
  "r \<in> set (foldl (table_upsert now) t us) \<Longrightarrow> last_write us (answer_key r) = Some a \<Longrightarrow>
   a_answer_text r = a"
proof (induction us arbitrary: r a rule: rev_induct)
  case Nil
  then show ?case by (simp add: last_write_def)
next
  case (snoc u us)
  let ?t = "foldl (table_upsert now) t us"
  from snoc.prems(1) have r: "r \<in> set (table_upsert now ?t u)" by simp
  show ?case
  proof (cases "answer_key r = fst u")
    case True
    with snoc.prems(2) have "a = snd u" by (simp add: last_write_snoc)
    with table_upsert_hit [OF r True] show ?thesis by simp
  next
    case False
    with snoc.prems(2) have "last_write us (answer_key r) = Some a"
      by (simp add: last_write_snoc)
    from snoc.IH [OF table_upsert_miss [OF r False] this] show ?thesis .
  qed
qed

lemma foldl_table_upsert_present:
  "fst ` set us \<subseteq> set (map answer_key t) \<Longrightarrow>
   foldl (table_upsert now) t us =
     map (\<lambda>r. case last_write us (answer_key r) of None \<Rightarrow> r
               | Some a \<Rightarrow> r\<lparr>a_answer_text := a, a_created_at := now\<rparr>) t"
proof (induction us rule: rev_induct)
  case Nil
  show ?case by (simp add: last_write_def)
next
  case (snoc u us)
  let ?t = "foldl (table_upsert now) t us"
  let ?f = "\<lambda>r. case last_write us (answer_key r) of None \<Rightarrow> r
               | Some a \<Rightarrow> r\<lparr>a_answer_text := a, a_created_at := now\<rparr>"
  let ?g = "\<lambda>r. if answer_key r = fst u then r\<lparr>a_answer_text := snd u, a_created_at := now\<rparr> else r"
  from snoc.prems have sub: "fst ` set us \<subseteq> set (map answer_key t)" and u: "fst u \<in> set (map answer_key t)"
    by auto
  have "fst u \<in> set (map answer_key ?t)"
    using u foldl_table_upsert_keys [of now t us] by blast
  then have "foldl (table_upsert now) t (us @ [u]) = map ?g ?t"
    by (simp add: table_upsert_present)
  also have "\<dots> = map (?g \<circ> ?f) t"
    unfolding snoc.IH [OF sub] by simp
  also have "?g \<circ> ?f = (\<lambda>r. case last_write (us @ [u]) (answer_key r) of None \<Rightarrow> r
               | Some a \<Rightarrow> r\<lparr>a_answer_text := a, a_created_at := now\<rparr>)"
  proof
    fix r
    have k: "answer_key (?f r) = answer_key r"
      by (cases "last_write us (answer_key r)") (simp_all add: answer_key_def)
    show "(?g \<circ> ?f) r = (case last_write (us @ [u]) (answer_key r) of None \<Rightarrow> r
               | Some a \<Rightarrow> r\<lparr>a_answer_text := a, a_created_at := now\<rparr>)"
    proof (cases "answer_key r = fst u")
      case True
      with k show ?thesis
        by (cases "last_write us (answer_key r)") (simp_all add: last_write_snoc)
    next
      case False
      with k show ?thesis by (simp add: last_write_snoc)
    qed
  qed
  finally show ?case .
qed


lemma distinct_filter_le1:
  "distinct (map f xs) \<Longrightarrow> length (filter (\<lambda>x. f x = k) xs) \<le> Suc 0"
proof (induction xs)
  case Nil
  show ?case by simp
next
  case (Cons x xs)
  show ?case
  proof (cases "f x = k")
    case True
    from Cons.prems have "f x \<notin> f ` set xs" by simp
    then have "\<And>y. y \<in> set xs \<Longrightarrow> f y \<noteq> k" using True by blast
    then have "filter (\<lambda>x. f x = k) xs = []" by (simp add: filter_empty_conv)
    with True show ?thesis by simp
  next
    case False
    with Cons show ?thesis by simp
  qed
qed

lemma answers_loop_distinct:
  "distinct (map answer_key (answers cur)) \<Longrightarrow>
   distinct (map answer_key (answers (snd (answers_loop now qid_map model_map rows n cur))))"
  by (simp add: answers_loop_executed Let_def foldl_table_upsert_distinct)

lemma answers_upsert_model_ids: "answers (snd (upsert_model_ids cur names)) = answers cur"
  by (simp add: upsert_model_ids_def Let_def)

lemma answers_upsert_questions: "answers (snd (upsert_questions now cur qtexts)) = answers cur"
  by (simp add: upsert_questions_def Let_def)

lemma load_distinct:
  "distinct (map answer_key (answers cur)) \<Longrightarrow>
   distinct (map answer_key (answers (snd (load now_q now_a (Some cur) with_fts long_df))))"
proof -
  assume d: "distinct (map answer_key (answers cur))"
  obtain model_map cur1 where m: "upsert_model_ids cur (unique (dropna (map model_name long_df))) = (model_map, cur1)"
    by (cases "upsert_model_ids cur (unique (dropna (map model_name long_df)))") blast
  obtain qid_map cur2 where q: "upsert_questions now_q cur1 (unique (dropna (map question_text long_df))) = (qid_map, cur2)"
    by (cases "upsert_questions now_q cur1 (unique (dropna (map question_text long_df)))") blast
  from m have "answers cur1 = answers cur"
    using answers_upsert_model_ids [of cur "unique (dropna (map model_name long_df))"] by simp
  moreover from q have "answers cur2 = answers cur1"
    using answers_upsert_questions [of now_q cur1 "unique (dropna (map question_text long_df))"] by simp
  ultimately have "distinct (map answer_key (answers cur2))" using d by simp
  then show ?thesis
    using answers_loop_distinct [of cur2 now_a qid_map model_map long_df 0]
    by (simp add: load_def create_schema_def m q insert_or_update_answers_def)
qed

lemma run_call_distinct:
  "distinct (map answer_key (answers cur)) \<Longrightarrow> distinct (map answer_key (answers (run_call cur c)))"
proof (cases c)
  case (Create_schema b)
  assume "distinct (map answer_key (answers cur))"
  with Create_schema show ?thesis by (simp add: create_schema_def)
next
  case (Upsert_model_ids names)
  assume "distinct (map answer_key (answers cur))"
  with Upsert_model_ids show ?thesis by (simp add: answers_upsert_model_ids)
next
  case (Upsert_questions now qtexts)
  assume "distinct (map answer_key (answers cur))"
  with Upsert_questions show ?thesis by (simp add: answers_upsert_questions)
next
  case (Insert_or_update_answers now rows qid_map model_map)
  assume "distinct (map answer_key (answers cur))"
  with Insert_or_update_answers show ?thesis
    by (simp add: insert_or_update_answers_def answers_loop_distinct)
next
  case (Load now_q now_a with_fts long_df)
  assume "distinct (map answer_key (answers cur))"
  with Load show ?thesis by (simp add: load_distinct)
qed

lemma foldl_run_call_distinct:
  "distinct (map answer_key (answers cur)) \<Longrightarrow>
   distinct (map answer_key (answers (foldl run_call cur calls)))"
  by (induction calls arbitrary: cur) (simp_all add: run_call_distinct)

text \<open>
  Claim C2. After any sequence of calls on a store that \<open>create_schema\<close> made, the table
  \<open>answers\<close> holds at most one row for every pair of a question id and a model id.
\<close>

theorem answers_unique:
  "length (filter (\<lambda>r. a_question_id r = qid \<and> a_model_id r = mid)
     (answers (run_calls with_fts calls))) \<le> 1"
proof -
  have "distinct (map answer_key (answers (run_calls with_fts calls)))"
    unfolding run_calls_def
    by (rule foldl_run_call_distinct) (simp add: create_schema_def empty_store_def)
  from distinct_filter_le1 [OF this, of "(qid, mid)"] show ?thesis
    by (simp add: answer_key_def)
qed


lemma outcome_None: "outcome n (us, None) = Inr (n + length us)"
  by (simp add: outcome_def)

lemma rerun_answers:
  assumes r1: "answers_loop now1 qid_map model_map rows n cur0 = (res1, cur1)"
    and x: "executed qid_map model_map (set (map q_id (questions cur0)))
              (set (map m_id (models cur0))) rows (set (map answer_key (answers cur0))) = (us, e)"
  shows "answers_loop now2 qid_map model_map rows n cur1 =
           (res1, cur1\<lparr>answers := map (\<lambda>r. if answer_key r \<in> fst ` set us
                                              then r\<lparr>a_created_at := now2\<rparr> else r)
                                     (answers cur1)\<rparr>)"
proof -
  from r1 x have res1: "res1 = outcome n (us, e)"
    and cur1: "cur1 = cur0\<lparr>answers := foldl (table_upsert now1) (answers cur0) us\<rparr>"
    by (simp_all add: answers_loop_executed Let_def)
  have a1: "answers cur1 = foldl (table_upsert now1) (answers cur0) us"
    and q1: "questions cur1 = questions cur0" and m1: "models cur1 = models cur0"
    by (simp_all add: cur1)
  have k1: "set (map answer_key (answers cur1)) = set (map answer_key (answers cur0)) \<union> fst ` set us"
    unfolding a1 by (rule foldl_table_upsert_keys)
  have x1: "executed qid_map model_map (set (map q_id (questions cur1)))
              (set (map m_id (models cur1))) rows (set (map answer_key (answers cur1))) = (us, e)"
    unfolding q1 m1 k1 by (rule executed_saturated [OF x])
  have sub: "fst ` set us \<subseteq> set (map answer_key (answers cur1))"
    unfolding k1 by blast
  have "foldl (table_upsert now2) (answers cur1) us =
      map (\<lambda>r. case last_write us (answer_key r) of None \<Rightarrow> r
               | Some a \<Rightarrow> r\<lparr>a_answer_text := a, a_created_at := now2\<rparr>) (answers cur1)"
    by (rule foldl_table_upsert_present [OF sub])
  also have "\<dots> = map (\<lambda>r. if answer_key r \<in> fst ` set us
                              then r\<lparr>a_created_at := now2\<rparr> else r) (answers cur1)"
  proof (rule map_cong [OF refl])
    fix r assume r: "r \<in> set (answers cur1)"
    show "(case last_write us (answer_key r) of None \<Rightarrow> r
            | Some a \<Rightarrow> r\<lparr>a_answer_text := a, a_created_at := now2\<rparr>) =
          (if answer_key r \<in> fst ` set us then r\<lparr>a_created_at := now2\<rparr> else r)"
    proof (cases "last_write us (answer_key r)")
      case None
      then have "answer_key r \<notin> fst ` set us" by (simp add: last_write_None)
      with None show ?thesis by simp
    next
      case (Some a)
      then have "answer_key r \<in> fst ` set us"
        using last_write_None [of us "answer_key r"] by simp
      moreover have "a_answer_text r = a"
        using foldl_table_upsert_text [OF r [unfolded a1] Some] .
      ultimately show ?thesis using Some by simp
    qed
  qed
  finally have f: "foldl (table_upsert now2) (answers cur1) us =
      map (\<lambda>r. if answer_key r \<in> fst ` set us then r\<lparr>a_created_at := now2\<rparr> else r) (answers cur1)" .
  show ?thesis
    unfolding answers_loop_executed [of now2 qid_map model_map rows n cur1] x1 Let_def
    by (simp add: res1 f)
qed

lemma map_stamp_core:
  "map (a_created_at_update (\<lambda>_. c)) (map (\<lambda>r. if P r then r\<lparr>a_created_at := now\<rparr> else r) t) =
   map (a_created_at_update (\<lambda>_. c)) t"
  by (induction t) simp_all

lemma map_stamp_text:
  "map a_answer_text (map (\<lambda>r. if P r then r\<lparr>a_created_at := now\<rparr> else r) t) = map a_answer_text t"
  by (induction t) simp_all

lemma ex_run1:
  "insert_or_update_answers 5 ex_store ex_batch ex_qid_map ex_model_map =
     (Inr 2, ex_store\<lparr>answers := [ex_answer 5]\<rparr>)"
  by (simp add: insert_or_update_answers_def ex_store_def ex_batch_def ex_qid_map_def
      ex_model_map_def ex_answer_def passes_guard_def truthy_def upsert_answer_def
      answer_key_def next_rowid_def)

lemma ex_run2:
  "insert_or_update_answers 9 (ex_store\<lparr>answers := [ex_answer 5]\<rparr>) ex_batch ex_qid_map ex_model_map =
     (Inr 2, ex_store\<lparr>answers := [ex_answer 9]\<rparr>)"
  by (simp add: insert_or_update_answers_def ex_store_def ex_batch_def ex_qid_map_def
      ex_model_map_def ex_answer_def passes_guard_def truthy_def upsert_answer_def
      answer_key_def next_rowid_def)

text \<open>
  Claim C1. Running the answer upsert a second time with the same batch and the same
  identity maps ends as the first run did, adds no row to \<open>answers\<close> and leaves every
  column of every row but \<open>created_at\<close> as the first run left it; when the first run
  returned, the rows whose key is the key of a record that passed the guard carry the
  timestamp of the second run and all other rows are as they were.
\<close>

theorem answer_upsert_idempotent:
  assumes "insert_or_update_answers now1 cur0 rows qid_map model_map = (res1, cur1)"
    and "insert_or_update_answers now2 cur1 rows qid_map model_map = (res2, cur2)"
  shows "res2 = res1 \<and>
         length (answers cur2) = length (answers cur1) \<and>
         map a_answer_text (answers cur2) = map a_answer_text (answers cur1) \<and>
         map (a_created_at_update (\<lambda>_. 0)) (answers cur2) =
           map (a_created_at_update (\<lambda>_. 0)) (answers cur1) \<and>
         questions cur2 = questions cur1 \<and> models cur2 = models cur1 \<and>
         (\<forall>n. res1 = Inr n \<longrightarrow>
            answers cur2 =
              map (\<lambda>r. if answer_key r \<in> set (map (resolved_key qid_map model_map)
                                                   (filter passes_guard rows))
                        then r\<lparr>a_created_at := now2\<rparr> else r) (answers cur1))"
proof -
  obtain us e where x: "executed qid_map model_map (set (map q_id (questions cur0)))
      (set (map m_id (models cur0))) rows (set (map answer_key (answers cur0))) = (us, e)"
    by (cases "executed qid_map model_map (set (map q_id (questions cur0)))
      (set (map m_id (models cur0))) rows (set (map answer_key (answers cur0)))") blast
  let ?K = "fst ` set us"
  from rerun_answers [OF assms(1) [unfolded insert_or_update_answers_def] x, of now2] assms(2)
  have res: "res2 = res1"
    and cur2: "cur2 = cur1\<lparr>answers := map (\<lambda>r. if answer_key r \<in> ?K
                 then r\<lparr>a_created_at := now2\<rparr> else r) (answers cur1)\<rparr>"
    by (simp_all add: insert_or_update_answers_def)
  have a2: "answers cur2 = map (\<lambda>r. if answer_key r \<in> ?K
                 then r\<lparr>a_created_at := now2\<rparr> else r) (answers cur1)"
    by (simp add: cur2)
  have len: "length (answers cur2) = length (answers cur1)" by (simp add: a2)
  have texts: "map a_answer_text (answers cur2) = map a_answer_text (answers cur1)"
    unfolding a2 by (rule map_stamp_text)
  have core: "map (a_created_at_update (\<lambda>_. 0)) (answers cur2) =
           map (a_created_at_update (\<lambda>_. 0)) (answers cur1)"
    unfolding a2 by (rule map_stamp_core)
  have qm: "questions cur2 = questions cur1" "models cur2 = models cur1"
    by (simp_all add: cur2)
  have ok: "\<forall>n. res1 = Inr n \<longrightarrow>
            answers cur2 =
              map (\<lambda>r. if answer_key r \<in> set (map (resolved_key qid_map model_map)
                                                   (filter passes_guard rows))
                        then r\<lparr>a_created_at := now2\<rparr> else r) (answers cur1)"
  proof (intro allI impI)
    fix n assume n: "res1 = Inr n"
    from assms(1) x have "res1 = outcome 0 (us, e)"
      by (simp add: insert_or_update_answers_def answers_loop_executed Let_def)
    with n have "e = None" by (cases e) (simp_all add: outcome_def)
    from executed_all [OF x [unfolded this]]
    have "?K = set (map (resolved_key qid_map model_map) (filter passes_guard rows))"
      by (simp add: image_image)
    then show "answers cur2 =
              map (\<lambda>r. if answer_key r \<in> set (map (resolved_key qid_map model_map)
                                                   (filter passes_guard rows))
                        then r\<lparr>a_created_at := now2\<rparr> else r) (answers cur1)"
      unfolding a2 by simp
  qed
  from res len texts core qm ok show ?thesis by blast
qed


theorem answer_upsert_idempotent_witness:
  "insert_or_update_answers 5 ex_store ex_batch ex_qid_map ex_model_map =
     (Inr 2, ex_store\<lparr>answers := [ex_answer 5]\<rparr>) \<and>
   insert_or_update_answers 9 (ex_store\<lparr>answers := [ex_answer 5]\<rparr>) ex_batch ex_qid_map
     ex_model_map = (Inr 2, ex_store\<lparr>answers := [ex_answer 9]\<rparr>) \<and>
   length (answers (ex_store\<lparr>answers := [ex_answer 9]\<rparr>)) =
     length (answers (ex_store\<lparr>answers := [ex_answer 5]\<rparr>)) \<and>
   map a_answer_text (answers (ex_store\<lparr>answers := [ex_answer 9]\<rparr>)) =
     map a_answer_text (answers (ex_store\<lparr>answers := [ex_answer 5]\<rparr>)) \<and>
   answers (ex_store\<lparr>answers := [ex_answer 9]\<rparr>) =
     map (\<lambda>r. if answer_key r \<in> set (map (resolved_key ex_qid_map ex_model_map)
                                          (filter passes_guard ex_batch))
               then r\<lparr>a_created_at := 9\<rparr> else r)
       (answers (ex_store\<lparr>answers := [ex_answer 5]\<rparr>))"
  using answer_upsert_idempotent [OF ex_run1 ex_run2] ex_run1 ex_run2 by blast



lemma answers_loop_filter:
  "answers_loop now qid_map model_map rows n cur =
   answers_loop now qid_map model_map (filter passes_guard rows) n cur"
proof (induction rows arbitrary: n cur)
  case Nil
  show ?case by simp
next
  case (Cons r rs)
  show ?case
  proof (cases "passes_guard r")
    case False
    then show ?thesis using Cons.IH [of n cur] by simp
  next
    case True
    then show ?thesis using Cons.IH
      by (simp split: option.splits sum.splits)
  qed
qed

lemma executed_ok:
  "list_all (\<lambda>r. passes_guard r \<longrightarrow>
      (\<exists>qid mid. qid_map (the (question_text r)) = Some qid \<and>
         model_map (the (model_name r)) = Some mid \<and> qid \<in> qids \<and> mid \<in> mids)) rows \<Longrightarrow>
   snd (executed qid_map model_map qids mids rows ks) = None"
proof (induction rows arbitrary: ks)
  case Nil
  show ?case by simp
next
  case (Cons r rs)
  from Cons.prems have rest: "list_all (\<lambda>r. passes_guard r \<longrightarrow>
      (\<exists>qid mid. qid_map (the (question_text r)) = Some qid \<and>
         model_map (the (model_name r)) = Some mid \<and> qid \<in> qids \<and> mid \<in> mids)) rs"
    by simp
  show ?case
  proof (cases "passes_guard r")
    case False
    then show ?thesis using Cons.IH [OF rest, of ks] by simp
  next
    case True
    with Cons.prems obtain qid mid where q: "qid_map (the (question_text r)) = Some qid"
      and m: "model_map (the (model_name r)) = Some mid" and ok: "(qid, mid) \<in> ks \<or> (qid \<in> qids \<and> mid \<in> mids)"
      by auto
    obtain us e where x: "executed qid_map model_map qids mids rs (insert (qid, mid) ks) = (us, e)"
      by (cases "executed qid_map model_map qids mids rs (insert (qid, mid) ks)") blast
    from Cons.IH [OF rest, of "insert (qid, mid) ks"] x have "e = None" by simp
    with executed_step [where qid_map = qid_map and model_map = model_map and r = r, OF True q m ok x]
    show ?thesis by simp
  qed
qed

lemma resolves_iff:
  "resolves qid_map model_map cur r \<longleftrightarrow>
     (\<exists>qid mid. qid_map (the (question_text r)) = Some qid \<and>
         model_map (the (model_name r)) = Some mid \<and> qid \<in> set (map q_id (questions cur)) \<and>
         mid \<in> set (map m_id (models cur)))"
  by (auto simp: resolves_def split: option.splits)

lemma answers_loop_returns:
  assumes "list_all (\<lambda>r. passes_guard r \<longrightarrow> resolves qid_map model_map cur r) rows"
  shows "fst (answers_loop now qid_map model_map rows n cur) =
           Inr (n + length (filter passes_guard rows))"
proof -
  let ?x = "executed qid_map model_map (set (map q_id (questions cur)))
      (set (map m_id (models cur))) rows (set (map answer_key (answers cur)))"
  from assms have "list_all (\<lambda>r. passes_guard r \<longrightarrow>
      (\<exists>qid mid. qid_map (the (question_text r)) = Some qid \<and>
         model_map (the (model_name r)) = Some mid \<and> qid \<in> set (map q_id (questions cur)) \<and>
         mid \<in> set (map m_id (models cur)))) rows"
    by (simp add: resolves_iff)
  from executed_ok [OF this] have e: "snd ?x = None" .
  then have x: "?x = (fst ?x, None)" by (metis prod.collapse)
  from executed_all [OF x] have "length (fst ?x) = length (filter passes_guard rows)" by simp
  with e show ?thesis by (simp add: answers_loop_executed Let_def outcome_def)
qed

lemma last_write_last:
  "fst u \<notin> fst ` set ys \<Longrightarrow> last_write (xs @ u # ys) (fst u) = Some (snd u)"
proof -
  assume "fst u \<notin> fst ` set ys"
  then have "map_of (rev ys) (fst u) = None" by (simp add: map_of_eq_None_iff)
  then show ?thesis by (cases u) (simp add: last_write_def map_add_def)
qed


text \<open>
  Claim C5. The records that fail the guard (a question, model or answer that is absent
  or empty) have no effect and raise nothing: the run is the run on the records that
  pass. When every passing record resolves, the run returns, and whenever it returns, the
  count is the number of passing records and the table is the result of one statement for
  each of them, in order; for a passing record that no later passing record shares its key
  with, the table then holds a row under that key and every such row carries that
  record's answer text.
\<close>

theorem answer_upsert_skip_and_count:
  "insert_or_update_answers now cur rows qid_map model_map =
     insert_or_update_answers now cur (filter passes_guard rows) qid_map model_map \<and>
   (list_all (\<lambda>r. passes_guard r \<longrightarrow> resolves qid_map model_map cur r) rows \<longrightarrow>
      fst (insert_or_update_answers now cur rows qid_map model_map) =
        Inr (length (filter passes_guard rows))) \<and>
   (\<forall>n cur'. insert_or_update_answers now cur rows qid_map model_map = (Inr n, cur') \<longrightarrow>
      n = length (filter passes_guard rows) \<and>
      answers cur' =
        foldl (table_upsert now) (answers cur)
          (map (\<lambda>r. (resolved_key qid_map model_map r, the (answer_text r)))
             (filter passes_guard rows)) \<and>
      (\<forall>pre r post.
         rows = pre @ r # post \<and> passes_guard r \<and>
         list_all (\<lambda>r'. passes_guard r' \<longrightarrow>
                     resolved_key qid_map model_map r' \<noteq> resolved_key qid_map model_map r) post \<longrightarrow>
         list_ex (\<lambda>row. answer_key row = resolved_key qid_map model_map r) (answers cur') \<and>
         list_all (\<lambda>row. answer_key row = resolved_key qid_map model_map r \<longrightarrow>
                     a_answer_text row = the (answer_text r)) (answers cur')))"
proof (intro conjI allI impI)
  show "insert_or_update_answers now cur rows qid_map model_map =
     insert_or_update_answers now cur (filter passes_guard rows) qid_map model_map"
    unfolding insert_or_update_answers_def by (rule answers_loop_filter)
next
  assume "list_all (\<lambda>r. passes_guard r \<longrightarrow> resolves qid_map model_map cur r) rows"
  from answers_loop_returns [OF this, of now 0]
  show "fst (insert_or_update_answers now cur rows qid_map model_map) =
        Inr (length (filter passes_guard rows))"
    by (simp add: insert_or_update_answers_def)
next
  fix n cur'
  assume run: "insert_or_update_answers now cur rows qid_map model_map = (Inr n, cur')"
  let ?f = "\<lambda>r. (resolved_key qid_map model_map r, the (answer_text r))"
  let ?us = "map ?f (filter passes_guard rows)"
  obtain us e where x: "executed qid_map model_map (set (map q_id (questions cur)))
      (set (map m_id (models cur))) rows (set (map answer_key (answers cur))) = (us, e)"
    by (cases "executed qid_map model_map (set (map q_id (questions cur)))
      (set (map m_id (models cur))) rows (set (map answer_key (answers cur)))") blast
  from run x have o: "outcome 0 (us, e) = Inr n"
    and c: "cur' = cur\<lparr>answers := foldl (table_upsert now) (answers cur) us\<rparr>"
    by (simp_all add: insert_or_update_answers_def answers_loop_executed Let_def)
  from o have e: "e = None" by (cases e) (simp_all add: outcome_def)
  from executed_all [OF x [unfolded e]] have us: "us = ?us" .
  from o e show "n = length (filter passes_guard rows)" by (simp add: outcome_def us)
  from c show a: "answers cur' = foldl (table_upsert now) (answers cur) ?us" by (simp add: us)
  fix pre r post
  assume h: "rows = pre @ r # post \<and> passes_guard r \<and>
         list_all (\<lambda>r'. passes_guard r' \<longrightarrow>
                     resolved_key qid_map model_map r' \<noteq> resolved_key qid_map model_map r) post"
  then have split: "?us = map ?f (filter passes_guard pre) @ ?f r # map ?f (filter passes_guard post)"
    by simp
  from h have "fst (?f r) \<notin> fst ` set (map ?f (filter passes_guard post))"
    by (auto simp: list_all_iff)
  from last_write_last [OF this, of "map ?f (filter passes_guard pre)"]
  have lw: "last_write ?us (resolved_key qid_map model_map r) = Some (the (answer_text r))"
    unfolding split by simp
  have "resolved_key qid_map model_map r \<in> fst ` set ?us" unfolding split by simp
  then have "resolved_key qid_map model_map r \<in> set (map answer_key (answers cur'))"
    unfolding a foldl_table_upsert_keys by blast
  then show "list_ex (\<lambda>row. answer_key row = resolved_key qid_map model_map r) (answers cur')"
    by (auto simp: list_ex_iff)
  show "list_all (\<lambda>row. answer_key row = resolved_key qid_map model_map r \<longrightarrow>
                     a_answer_text row = the (answer_text r)) (answers cur')"
    unfolding list_all_iff
  proof (intro ballI impI)
    fix row assume "row \<in> set (answers cur')" and k: "answer_key row = resolved_key qid_map model_map r"
    then have "row \<in> set (foldl (table_upsert now) (answers cur) ?us)" by (simp add: a)
    from foldl_table_upsert_text [OF this lw [folded k]]
    show "a_answer_text row = the (answer_text r)" .
  qed
qed

text \<open>
  In the example batch two records pass the guard and share one pair: the count is 2, the
  table ends with one row, and the row has the text of the later record.
\<close>

theorem answer_upsert_skip_and_count_witness:
  "list_all (\<lambda>r. passes_guard r \<longrightarrow> resolves ex_qid_map ex_model_map ex_store r) ex_batch \<and>
   insert_or_update_answers 5 ex_store ex_batch ex_qid_map ex_model_map =
     (Inr 2, ex_store\<lparr>answers := [ex_answer 5]\<rparr>) \<and>
   fst (insert_or_update_answers 5 ex_store ex_batch ex_qid_map ex_model_map) =
     Inr (length (filter passes_guard ex_batch)) \<and>
   length (filter passes_guard ex_batch) = 2 \<and>
   length (answers (ex_store\<lparr>answers := [ex_answer 5]\<rparr>)) = 1 \<and>
   list_all (\<lambda>row. answer_key row = resolved_key ex_qid_map ex_model_map (ex_batch ! 2) \<longrightarrow>
               a_answer_text row = the (answer_text (ex_batch ! 2)))
     (answers (ex_store\<lparr>answers := [ex_answer 5]\<rparr>)) \<and>
   the (answer_text (ex_batch ! 2)) = [99]"
proof -
  have g: "list_all (\<lambda>r. passes_guard r \<longrightarrow> resolves ex_qid_map ex_model_map ex_store r) ex_batch"
    by (simp add: ex_batch_def ex_qid_map_def ex_model_map_def ex_store_def passes_guard_def
        truthy_def resolves_def)
  note t = answer_upsert_skip_and_count [of 5 ex_store ex_batch ex_qid_map ex_model_map]
  from t g have r: "fst (insert_or_update_answers 5 ex_store ex_batch ex_qid_map ex_model_map) =
     Inr (length (filter passes_guard ex_batch))" by blast
  have p: "ex_batch = take 2 ex_batch @ (ex_batch ! 2) # [] \<and> passes_guard (ex_batch ! 2) \<and>
      list_all (\<lambda>r'. passes_guard r' \<longrightarrow> resolved_key ex_qid_map ex_model_map r' \<noteq>
                  resolved_key ex_qid_map ex_model_map (ex_batch ! 2)) []"
    by (simp add: ex_batch_def passes_guard_def truthy_def)
  from t ex_run1 p
  have w: "list_all (\<lambda>row. answer_key row = resolved_key ex_qid_map ex_model_map (ex_batch ! 2) \<longrightarrow>
               a_answer_text row = the (answer_text (ex_batch ! 2)))
     (answers (ex_store\<lparr>answers := [ex_answer 5]\<rparr>))"
    by blast
  have n: "length (filter passes_guard ex_batch) = 2"
    by (simp add: ex_batch_def passes_guard_def truthy_def)
  have l: "length (answers (ex_store\<lparr>answers := [ex_answer 5]\<rparr>)) = 1" by simp
  have a: "the (answer_text (ex_batch ! 2)) = [99]" by (simp add: ex_batch_def)
  from g ex_run1 r n l w a show ?thesis by blast
qed



section \<open>The question and model upserts: properties\<close>

lemma foldl_insert_or_ignore_question:
  "\<exists>new. foldl (insert_or_ignore_question now) qs qtexts = qs @ new \<and>
     list_all (\<lambda>r. q_created_at r = now \<and> q_text r \<in> set qtexts \<and>
                   q_text r \<notin> set (map q_text qs)) new"
proof (induction qtexts arbitrary: qs)
  case Nil
  show ?case by simp
next
  case (Cons q qtexts)
  show ?case
  proof (cases "q \<in> set (map q_text qs)")
    case True
    then have "insert_or_ignore_question now qs q = qs" by (simp add: insert_or_ignore_question_def)
    with Cons.IH [of qs] show ?thesis by (auto simp: list_all_iff)
  next
    case False
    let ?r = "\<lparr>q_id = next_rowid (map q_id qs), q_text = q, q_created_at = now\<rparr>"
    from False have step: "insert_or_ignore_question now qs q = qs @ [?r]"
      by (simp add: insert_or_ignore_question_def)
    from Cons.IH [of "qs @ [?r]"] obtain new where
      new: "foldl (insert_or_ignore_question now) (qs @ [?r]) qtexts = (qs @ [?r]) @ new"
      and all: "list_all (\<lambda>r. q_created_at r = now \<and> q_text r \<in> set qtexts \<and>
                   q_text r \<notin> set (map q_text (qs @ [?r]))) new"
      by blast
    have "foldl (insert_or_ignore_question now) qs (q # qtexts) = qs @ (?r # new)"
      using new step by simp
    moreover have "list_all (\<lambda>r. q_created_at r = now \<and> q_text r \<in> set (q # qtexts) \<and>
                   q_text r \<notin> set (map q_text qs)) (?r # new)"
      using all False by (auto simp: list_all_iff)
    ultimately show ?thesis by blast
  qed
qed

text \<open>
  Claim C6. \<open>upsert_questions\<close> leaves every row that \<open>questions\<close> holds as it is, the
  timestamp included: the table after the call is the table before it followed by new rows,
  each stamped with the time of the call and each for a text of the batch that the table
  did not hold. A text that is already present therefore gets no new row and no new
  timestamp. The other tables are untouched.
\<close>

theorem upsert_questions_keeps_rows:
  "\<exists>new. questions (snd (upsert_questions now cur qtexts)) = questions cur @ new \<and>
     list_all (\<lambda>r. q_created_at r = now \<and> q_text r \<in> set qtexts \<and>
                   q_text r \<notin> set (map q_text (questions cur))) new \<and>
     models (snd (upsert_questions now cur qtexts)) = models cur \<and>
     answers (snd (upsert_questions now cur qtexts)) = answers cur"
  using foldl_insert_or_ignore_question [of now "questions cur" qtexts]
  by (auto simp: upsert_questions_def Let_def)


text \<open>
  In the example store the question \<open>Q\<close> was created at time 3. A batch at time 7 with
  that question and a new one leaves its row as it is and adds one row for the new one.
\<close>

lemma upsert_questions_example:
  "questions (snd (upsert_questions 7 ex_store [[81], [82]])) =
     [\<lparr>q_id = 1, q_text = [81], q_created_at = 3\<rparr>,
      \<lparr>q_id = 2, q_text = [82], q_created_at = 7\<rparr>]"
  by (simp add: upsert_questions_def ex_store_def insert_or_ignore_question_def next_rowid_def
      Let_def numeral_2_eq_2)

lemma model_dict_Some:
  "name \<in> set (map m_name ms) \<Longrightarrow> \<exists>i. model_dict ms name = Some i \<and> i \<in> set (map m_id ms)"
proof (induction ms rule: rev_induct)
  case Nil
  then show ?case by simp
next
  case (snoc r ms)
  have d: "model_dict (ms @ [r]) = (model_dict ms)(m_name r \<mapsto> m_id r)"
    by (simp add: model_dict_def)
  show ?case
  proof (cases "name = m_name r")
    case True
    then show ?thesis by (simp add: d)
  next
    case False
    with snoc.prems have "name \<in> set (map m_name ms)" by auto
    from snoc.IH [OF this] False show ?thesis by (auto simp: d)
  qed
qed

lemma question_dict_Some:
  "t \<in> set (map q_text qs) \<Longrightarrow> \<exists>i. question_dict qs t = Some i \<and> i \<in> set (map q_id qs)"
proof (induction qs rule: rev_induct)
  case Nil
  then show ?case by simp
next
  case (snoc r qs)
  have d: "question_dict (qs @ [r]) = (question_dict qs)(q_text r \<mapsto> q_id r)"
    by (simp add: question_dict_def)
  show ?case
  proof (cases "t = q_text r")
    case True
    then show ?thesis by (simp add: d)
  next
    case False
    with snoc.prems have "t \<in> set (map q_text qs)" by auto
    from snoc.IH [OF this] False show ?thesis by (auto simp: d)
  qed
qed

lemma names_insert_or_ignore_model:
  "set (map m_name (insert_or_ignore_model ms name)) = insert name (set (map m_name ms))"
  by (auto simp: insert_or_ignore_model_def)

lemma names_foldl_models:
  "set (map m_name (foldl (\<lambda>ms name. if name = [] then ms else insert_or_ignore_model ms name)
                      ms names)) =
   set (map m_name ms) \<union> {n \<in> set names. n \<noteq> []}"
proof (induction names arbitrary: ms)
  case Nil
  show ?case by simp
next
  case (Cons n names)
  show ?case
  proof (cases "n = []")
    case True
    then show ?thesis using Cons.IH [of ms] by auto
  next
    case False
    then show ?thesis
      using Cons.IH [of "insert_or_ignore_model ms n"] names_insert_or_ignore_model [of ms n]
      by auto
  qed
qed

lemma texts_insert_or_ignore_question:
  "set (map q_text (insert_or_ignore_question now qs q)) = insert q (set (map q_text qs))"
  by (auto simp: insert_or_ignore_question_def)

lemma texts_foldl_questions:
  "set (map q_text (foldl (insert_or_ignore_question now) qs qtexts)) =
   set (map q_text qs) \<union> set qtexts"
proof (induction qtexts arbitrary: qs)
  case Nil
  show ?case by simp
next
  case (Cons q qtexts)
  show ?case
    using Cons.IH [of "insert_or_ignore_question now qs q"]
      texts_insert_or_ignore_question [of now qs q]
    by auto
qed

lemma set_dropna: "x \<in> set (dropna xs) \<longleftrightarrow> Some x \<in> set xs"
  by (induction xs rule: dropna.induct) auto

lemma set_unique: "set (unique xs) = set xs"
  by (simp add: unique_def)

lemma passes_guard_fields:
  "passes_guard r \<Longrightarrow>
   question_text r = Some (the (question_text r)) \<and> the (question_text r) \<noteq> [] \<and>
   model_name r = Some (the (model_name r)) \<and> the (model_name r) \<noteq> []"
  by (auto simp: passes_guard_def truthy_def split: option.splits)


lemma upserts_resolve:
  assumes m: "upsert_model_ids cur0 (unique (dropna (map model_name rows))) = (model_map, cur1)"
    and q: "upsert_questions now cur1 (unique (dropna (map question_text rows))) = (qid_map, cur2)"
    and r: "r \<in> set rows" and g: "passes_guard r"
  shows "the (question_text r) \<in> dom qid_map \<and> the (model_name r) \<in> dom model_map \<and>
         resolves qid_map model_map cur2 r"
proof -
  let ?step = "\<lambda>ms name. if name = [] then ms else insert_or_ignore_model ms name"
  let ?ms = "foldl ?step (models cur0) (sort (remdups (unique (dropna (map model_name rows)))))"
  let ?qs = "foldl (insert_or_ignore_question now) (questions cur1)
               (unique (dropna (map question_text rows)))"
  from m have mm: "model_map = model_dict ?ms" and c1: "cur1 = cur0\<lparr>models := ?ms\<rparr>"
    by (simp_all add: upsert_model_ids_def Let_def)
  from q have qm: "qid_map = question_dict ?qs" and c2: "cur2 = cur1\<lparr>questions := ?qs\<rparr>"
    by (simp_all add: upsert_questions_def Let_def)
  have models2: "models cur2 = ?ms" by (simp add: c2 c1)
  have questions2: "questions cur2 = ?qs" by (simp add: c2)
  note f = passes_guard_fields [OF g]
  from r f have "Some (the (model_name r)) \<in> set (map model_name rows)" by force
  then have "the (model_name r) \<in> set (sort (remdups (unique (dropna (map model_name rows)))))"
    by (simp add: set_unique set_dropna)
  with f have "the (model_name r) \<in> set (map m_name ?ms)"
    unfolding names_foldl_models by blast
  from model_dict_Some [OF this] obtain mid
    where mid: "model_map (the (model_name r)) = Some mid" "mid \<in> set (map m_id ?ms)"
    unfolding mm by blast
  from r f have "Some (the (question_text r)) \<in> set (map question_text rows)" by force
  then have "the (question_text r) \<in> set (unique (dropna (map question_text rows)))"
    by (simp add: set_unique set_dropna)
  then have "the (question_text r) \<in> set (map q_text ?qs)"
    unfolding texts_foldl_questions by blast
  from question_dict_Some [OF this] obtain qid
    where qid: "qid_map (the (question_text r)) = Some qid" "qid \<in> set (map q_id ?qs)"
    unfolding qm by blast
  have "resolves qid_map model_map cur2 r"
    unfolding resolves_iff models2 questions2 using mid qid by blast
  with mid(1) qid(1) show ?thesis by blast
qed

lemma load_returns:
  "fst (load now_q now_a con with_fts long_df) = Inr (length (filter passes_guard long_df))"
proof -
  let ?cur0 = "create_schema con with_fts"
  obtain model_map cur1 where m: "upsert_model_ids ?cur0 (unique (dropna (map model_name long_df))) = (model_map, cur1)"
    by (cases "upsert_model_ids ?cur0 (unique (dropna (map model_name long_df)))") blast
  obtain qid_map cur2 where q: "upsert_questions now_q cur1 (unique (dropna (map question_text long_df))) = (qid_map, cur2)"
    by (cases "upsert_questions now_q cur1 (unique (dropna (map question_text long_df)))") blast
  have "list_all (\<lambda>r. passes_guard r \<longrightarrow> resolves qid_map model_map cur2 r) long_df"
    unfolding list_all_iff using upserts_resolve [OF m q] by blast
  from answers_loop_returns [OF this, of now_a 0] show ?thesis
    by (simp add: load_def m q insert_or_update_answers_def)
qed

lemma ex_models:
  "upsert_model_ids (ex_store\<lparr>questions := [], models := []\<rparr>)
     (unique (dropna (map model_name ex_batch))) = (ex_model_map, ex_store\<lparr>questions := []\<rparr>)"
  by (simp add: upsert_model_ids_def ex_store_def ex_batch_def ex_model_map_def unique_def
      insert_or_ignore_model_def model_dict_def next_rowid_def)

lemma ex_questions:
  "upsert_questions 3 (ex_store\<lparr>questions := []\<rparr>)
     (unique (dropna (map question_text ex_batch))) = (ex_qid_map, ex_store)"
  by (simp add: upsert_questions_def ex_store_def ex_batch_def ex_qid_map_def unique_def
      insert_or_ignore_question_def question_dict_def next_rowid_def)

text \<open>
  Claim C9. With \<open>model_map\<close> from \<open>upsert_model_ids\<close> over the distinct model names of the
  batch and \<open>qid_map\<close> from \<open>upsert_questions\<close> over its distinct question texts, as \<open>main\<close>
  computes them, every record that passes the guard has its question text among the keys
  of \<open>qid_map\<close> and its model name among the keys of \<open>model_map\<close>, with identities that are
  rows of the tables; the answer upsert on that batch raises nothing and returns the number
  of passing records.
\<close>

theorem identity_resolution_safe:
  assumes "upsert_model_ids cur0 (unique (dropna (map model_name rows))) = (model_map, cur1)"
    and "upsert_questions now cur1 (unique (dropna (map question_text rows))) = (qid_map, cur2)"
  shows "list_all (\<lambda>r. passes_guard r \<longrightarrow>
                    the (question_text r) \<in> dom qid_map \<and> the (model_name r) \<in> dom model_map \<and>
                    resolves qid_map model_map cur2 r) rows \<and>
         fst (insert_or_update_answers now_a cur2 rows qid_map model_map) =
           Inr (length (filter passes_guard rows))"
proof -
  have a: "list_all (\<lambda>r. passes_guard r \<longrightarrow>
                    the (question_text r) \<in> dom qid_map \<and> the (model_name r) \<in> dom model_map \<and>
                    resolves qid_map model_map cur2 r) rows"
    unfolding list_all_iff using upserts_resolve [OF assms] by blast
  then have "list_all (\<lambda>r. passes_guard r \<longrightarrow> resolves qid_map model_map cur2 r) rows"
    by (simp add: list_all_iff)
  from answers_loop_returns [OF this, of now_a 0] a show ?thesis
    by (simp add: insert_or_update_answers_def)
qed

theorem identity_resolution_safe_witness:
  "upsert_model_ids (ex_store\<lparr>questions := [], models := []\<rparr>)
     (unique (dropna (map model_name ex_batch))) = (ex_model_map, ex_store\<lparr>questions := []\<rparr>) \<and>
   upsert_questions 3 (ex_store\<lparr>questions := []\<rparr>)
     (unique (dropna (map question_text ex_batch))) = (ex_qid_map, ex_store) \<and>
   list_all (\<lambda>r. passes_guard r \<longrightarrow>
               the (question_text r) \<in> dom ex_qid_map \<and> the (model_name r) \<in> dom ex_model_map \<and>
               resolves ex_qid_map ex_model_map ex_store r) ex_batch \<and>
   fst (insert_or_update_answers 5 ex_store ex_batch ex_qid_map ex_model_map) =
     Inr (length (filter passes_guard ex_batch))"
  using identity_resolution_safe [OF ex_models ex_questions, of 5] ex_models ex_questions
  by blast



section \<open>The tabular reader: properties\<close>

lemma reshape_error: "reshape question_col df = Inl e \<Longrightarrow> e = Ambiguous_question_text"
  by (simp add: reshape_def Let_def split: if_splits)

lemma load_table_unsupported:
  "load_table read_excel read_csv suffix sheet_sel = Inl (Unsupported_file_type x) \<longleftrightarrow>
     x = suffix \<and> lower suffix \<noteq> ascii ''.xlsx'' \<and> lower suffix \<noteq> ascii ''.xls'' \<and>
     lower suffix \<noteq> ascii ''.csv''"
  by (auto simp: load_table_def split: sum.splits)

lemma load_table_not_columns:
  "load_table read_excel read_csv suffix sheet_sel \<noteq> Inl Expected_at_least_2_columns"
  by (auto simp: load_table_def split: sum.splits)

lemma load_table_not_ambiguous:
  "load_table read_excel read_csv suffix sheet_sel \<noteq> Inl Ambiguous_question_text"
  by (auto simp: load_table_def split: sum.splits)

lemma read_table_cases:
  "read_table read_excel read_csv suffix sheet_sel question_col keep =
     (case load_table read_excel read_csv suffix sheet_sel of
        Inl e \<Rightarrow> Inl e
      | Inr df \<Rightarrow>
          if length (columns df) < 2 then Inl Expected_at_least_2_columns
          else map_sum id (\<lambda>long_df. if keep then long_df
                                      else filter (\<lambda>r. answer_text r \<noteq> None) long_df)
                 (reshape question_col df))"
  by (simp add: read_table_def split: sum.splits)

text \<open>
  Claim C7. \<open>read_table\<close> ends with the unsupported-file-type error exactly when the
  suffix, in lower case, is none of \<open>.xlsx\<close>, \<open>.xls\<close> and \<open>.csv\<close>, and with the
  two-columns error exactly when the file was loaded and the frame has fewer than two
  columns.
\<close>

theorem read_table_failures:
  fixes read_excel :: "sheet \<Rightarrow> 'e + dataframe"
  shows
  "(read_table read_excel read_csv suffix sheet_sel question_col keep_empty_answers =
      Inl (Unsupported_file_type x) \<longleftrightarrow>
    x = suffix \<and> lower suffix \<noteq> ascii ''.xlsx'' \<and> lower suffix \<noteq> ascii ''.xls'' \<and>
    lower suffix \<noteq> ascii ''.csv'') \<and>
   (read_table read_excel read_csv suffix sheet_sel question_col keep_empty_answers =
      Inl Expected_at_least_2_columns \<longleftrightarrow>
    (\<exists>df. load_table read_excel read_csv suffix sheet_sel = Inr df \<and> length (columns df) < 2))"
proof (cases "load_table read_excel read_csv suffix sheet_sel")
  case (Inl e)
  with load_table_unsupported [of read_excel read_csv suffix sheet_sel x]
    load_table_not_columns [of read_excel read_csv suffix sheet_sel]
  show ?thesis by (auto simp: read_table_cases)
next
  case (Inr df)
  with load_table_unsupported [of read_excel read_csv suffix sheet_sel x]
  have u: "\<not> (x = suffix \<and> lower suffix \<noteq> ascii ''.xlsx'' \<and> lower suffix \<noteq> ascii ''.xls'' \<and>
    lower suffix \<noteq> ascii ''.csv'')" by simp
  show ?thesis
  proof (cases "length (columns df) < 2")
    case True
    with Inr u show ?thesis by (simp add: read_table_cases)
  next
    case False
    have "(reshape question_col df :: 'e read_error + long_record list) =
          Inl Ambiguous_question_text \<or>
        (\<exists>long. (reshape question_col df :: 'e read_error + long_record list) = Inr long)"
      by (cases "reshape question_col df :: 'e read_error + long_record list")
         (auto dest: reshape_error)
    with Inr u False show ?thesis by (auto simp: read_table_cases)
  qed
qed


text \<open>
  A file named \<open>.txt\<close> is refused whatever the readers would give; an upper-case \<open>.CSV\<close>
  file with a single column is read and then refused for its columns.
\<close>

lemma read_table_failures_example:
  "read_table (\<lambda>_. Inr ex_frame) (Inr ex_frame) (ascii ''.txt'') None None False =
     (Inl (Unsupported_file_type (ascii ''.txt'')) :: unit read_error + long_record list)"
  "read_table (\<lambda>_. Inl ()) (Inr \<lparr>columns = [[113]], cells = [[Some [49]]]\<rparr>) (ascii ''.CSV'')
     None None False = Inl Expected_at_least_2_columns"
  by (simp_all add: read_table_def load_table_def lower_def ascii_def)

lemma nth_concat_uniform:
  "list_all (\<lambda>xs. length xs = n) xss \<Longrightarrow> k < length xss \<Longrightarrow> i < n \<Longrightarrow>
   concat xss ! (k * n + i) = xss ! k ! i"
proof (induction xss arbitrary: k)
  case Nil
  then show ?case by simp
next
  case (Cons xs xss)
  show ?case
  proof (cases k)
    case 0
    with Cons.prems show ?thesis by (simp add: nth_append)
  next
    case (Suc j)
    with Cons.prems have "concat xss ! (j * n + i) = xss ! j ! i"
      by (intro Cons.IH) simp_all
    moreover have "Suc j * n + i = length xs + (j * n + i)" using Cons.prems by simp
    ultimately show ?thesis using Suc by (simp add: nth_append)
  qed
qed

lemma length_concat_uniform:
  "list_all (\<lambda>xs. length xs = n) xss \<Longrightarrow> length (concat xss) = length xss * n"
  by (induction xss) simp_all

lemma length_filter_nth:
  "length (filter (\<lambda>j. P (xs ! j)) [0..<length xs]) = length (filter P xs)"
proof -
  have "filter P (map ((!) xs) [0..<length xs]) = map ((!) xs) (filter (P \<circ> (!) xs) [0..<length xs])"
    by (rule filter_map)
  then have "length (filter P xs) = length (filter (P \<circ> (!) xs) [0..<length xs])"
    by (simp add: map_nth)
  then show ?thesis by (simp add: comp_def)
qed

lemma length_model_cols:
  "length (model_cols labels) = length labels - count_list labels question_text_label"
proof -
  have "length (filter (\<lambda>c. c \<noteq> question_text_label) labels) +
        length (filter (\<lambda>c. \<not> c \<noteq> question_text_label) labels) = length labels"
    by (rule sum_length_filter_compl)
  moreover have "length (filter (\<lambda>c. \<not> c \<noteq> question_text_label) labels) =
      count_list labels question_text_label"
    by (induction labels) auto
  ultimately show ?thesis
    unfolding model_cols_def length_filter_nth [of "\<lambda>c. c \<noteq> question_text_label" labels]
    by simp
qed

lemma melt_length:
  "length (melt labels qi rows) = length (model_cols labels) * length rows"
  unfolding melt_def
  by (subst length_concat_uniform [where n = "length rows"]) (simp_all add: list_all_iff)

lemma melt_nth:
  assumes "k < length (model_cols labels)" "i < length rows"
  shows "melt labels qi rows ! (k * length rows + i) =
           \<lparr>question_text = rows ! i ! qi, model_name = Some (labels ! (model_cols labels ! k)),
            answer_text = rows ! i ! (model_cols labels ! k)\<rparr>"
  unfolding melt_def
  using assms
  by (subst nth_concat_uniform [where n = "length rows"]) (simp_all add: list_all_iff)

lemma reshape_Inr:
  "reshape question_col df = Inr long \<Longrightarrow>
   count_list (renamed_labels question_col df) question_text_label = 1 \<and>
   long = map clean_long (melt (renamed_labels question_col df)
            (index_of question_text_label (renamed_labels question_col df))
            (question_rows question_col df))"
  by (simp add: reshape_def Let_def renamed_labels_def question_rows_def split: if_splits)

lemma question_text_label_eq:
  "question_text_label = [113, 117, 101, 115, 116, 105, 111, 110, 95, 116, 101, 120, 116]"
  by (simp add: question_text_label_def ascii_def)

lemma clean_text_values:
  "clean_text (Some [49]) = Some [49]" "clean_text (Some [50]) = Some [50]"
  "clean_text (Some [97]) = Some [97]" "clean_text (Some [100]) = Some [100]"
  "clean_text (Some [32]) = None" "clean_text None = None"
  by (simp_all add: clean_text_def replace_char_def CR_def LF_def NBSP_def SPACE_def
      is_linebreak_def is_space_def rstrip_def lstrip_def strip_def)

lemma strip_values: "strip [109] = [109]" "strip [110] = [110]"
  by (simp_all add: strip_def lstrip_def rstrip_def is_space_def)

lemma ex_labels: "renamed_labels None ex_frame = [question_text_label, [109], [110]]"
  by (simp add: renamed_labels_def rename_question_def question_column_def truthy_def ex_frame_def)

lemma ex_index: "index_of question_text_label [question_text_label, [109], [110]] = 0"
  by (simp add: index_of_def)

lemma ex_rows: "question_rows None ex_frame = cells ex_frame"
  unfolding question_rows_def ex_labels ex_index
  by (simp add: drop_no_question_def ex_frame_def clean_text_values)

lemma ex_model_cols: "model_cols [question_text_label, [109], [110]] = [1, 2]"
proof -
  have "[0..<length [question_text_label, [109], [110]]] = [0, 1, 2]"
    by (simp add: upt_rec)
  then show ?thesis
    unfolding model_cols_def by (simp add: question_text_label_eq)
qed


lemma ex_melt:
  "map clean_long (melt [question_text_label, [109], [110]] 0 (cells ex_frame)) = ex_long"
  unfolding melt_def ex_model_cols
  by (simp add: ex_frame_def clean_long_def clean_text_values strip_values ex_long_def)

lemma ex_row_major:
  "map clean_long (row_major [question_text_label, [109], [110]] 0 (cells ex_frame)) =
     [ex_long ! 0, ex_long ! 2, ex_long ! 1, ex_long ! 3]"
  unfolding row_major_def ex_model_cols
  by (simp add: ex_frame_def clean_long_def clean_text_values strip_values ex_long_def)

lemma ex_count: "count_list [question_text_label, [109], [110]] question_text_label = 1"
  by (simp add: question_text_label_eq)

lemma ex_reshape: "reshape None ex_frame = Inr ex_long"
proof -
  have "reshape None ex_frame =
      (if count_list (renamed_labels None ex_frame) question_text_label \<noteq> 1
       then Inl Ambiguous_question_text
       else Inr (map clean_long (melt (renamed_labels None ex_frame)
              (index_of question_text_label (renamed_labels None ex_frame))
              (question_rows None ex_frame))))"
    by (simp add: reshape_def Let_def renamed_labels_def question_rows_def)
  then show ?thesis
    unfolding ex_labels ex_index ex_rows ex_melt ex_count by simp
qed

lemma ex_load: "load_table (\<lambda>_. Inl ()) (Inr ex_frame) (ascii ''.CSV'') None = Inr ex_frame"
  by (simp add: load_table_def lower_def ascii_def)

text \<open>
  Claim C3, as the code has it. The reshape step gives one record for every pair of a row
  that kept its question text and a model column, \<open>R * C\<close> in all, and lays them out
  column by column: the records of the first model column for all rows in their order,
  then those of the second model column, and so on. The record of row \<open>i\<close> and model
  column \<open>k\<close> is at position \<open>k * R + i\<close>.
\<close>

theorem reshape_count_and_order:
  assumes "reshape question_col df = Inr long"
  shows "length long = length (question_rows question_col df) * (length (columns df) - 1) \<and>
         length (model_cols (renamed_labels question_col df)) = length (columns df) - 1 \<and>
         (\<forall>k i. k < length (columns df) - 1 \<and> i < length (question_rows question_col df) \<longrightarrow>
            long ! (k * length (question_rows question_col df) + i) =
              \<lparr>question_text =
                 question_rows question_col df ! i !
                   index_of question_text_label (renamed_labels question_col df),
               model_name =
                 Some (strip (renamed_labels question_col df !
                               (model_cols (renamed_labels question_col df) ! k))),
               answer_text =
                 clean_text (question_rows question_col df ! i !
                               (model_cols (renamed_labels question_col df) ! k))\<rparr>)"
proof -
  let ?labels = "renamed_labels question_col df"
  let ?qi = "index_of question_text_label ?labels"
  let ?rows = "question_rows question_col df"
  from reshape_Inr [OF assms] have c: "count_list ?labels question_text_label = 1"
    and l: "long = map clean_long (melt ?labels ?qi ?rows)" by simp_all
  have "length ?labels = length (columns df)"
    by (simp add: renamed_labels_def rename_question_def)
  with c have C: "length (model_cols ?labels) = length (columns df) - 1"
    by (simp add: length_model_cols)
  have len: "length long = length ?rows * (length (columns df) - 1)"
    by (simp add: l melt_length C)
  have nth: "\<forall>k i. k < length (columns df) - 1 \<and> i < length ?rows \<longrightarrow>
      long ! (k * length ?rows + i) =
        \<lparr>question_text = ?rows ! i ! ?qi,
         model_name = Some (strip (?labels ! (model_cols ?labels ! k))),
         answer_text = clean_text (?rows ! i ! (model_cols ?labels ! k))\<rparr>"
  proof (intro allI impI)
    fix k i assume h: "k < length (columns df) - 1 \<and> i < length ?rows"
    then have k: "k < length (model_cols ?labels)" and i: "i < length ?rows" by (simp_all add: C)
    have "k * length ?rows + i < length (model_cols ?labels) * length ?rows"
    proof -
      have "k * length ?rows + i < Suc k * length ?rows" using i by simp
      also have "\<dots> \<le> length (model_cols ?labels) * length ?rows"
        using k by (intro mult_le_mono1) simp
      finally show ?thesis .
    qed
    then have "long ! (k * length ?rows + i) = clean_long (melt ?labels ?qi ?rows ! (k * length ?rows + i))"
      unfolding l by (simp add: melt_length)
    then show "long ! (k * length ?rows + i) =
        \<lparr>question_text = ?rows ! i ! ?qi,
         model_name = Some (strip (?labels ! (model_cols ?labels ! k))),
         answer_text = clean_text (?rows ! i ! (model_cols ?labels ! k))\<rparr>"
      by (simp add: melt_nth [OF k i] clean_long_def)
  qed
  from len C nth show ?thesis by blast
qed

text \<open>
  In the example frame of two rows and two model columns, the second record of the long
  table belongs to the second row and the first model column.
\<close>

theorem reshape_count_and_order_witness:
  "reshape None ex_frame = (Inr ex_long :: unit read_error + long_record list) \<and>
   length ex_long = 2 * 2 \<and>
   length (question_rows None ex_frame) = 2 \<and> length (columns ex_frame) - 1 = 2 \<and>
   ex_long ! (0 * 2 + 1) =
     \<lparr>question_text = Some [50], model_name = Some [109], answer_text = None\<rparr> \<and>
   ex_long ! (0 * length (question_rows None ex_frame) + 1) =
     \<lparr>question_text =
        question_rows None ex_frame ! 1 !
          index_of question_text_label (renamed_labels None ex_frame),
      model_name =
        Some (strip (renamed_labels None ex_frame !
                      (model_cols (renamed_labels None ex_frame) ! 0))),
      answer_text =
        clean_text (question_rows None ex_frame ! 1 !
                      (model_cols (renamed_labels None ex_frame) ! 0))\<rparr>"
proof -
  have r: "reshape None ex_frame = (Inr ex_long :: unit read_error + long_record list)"
    by (rule ex_reshape)
  have n: "length (question_rows None ex_frame) = 2" "length (columns ex_frame) - 1 = 2"
    unfolding ex_rows by (simp_all add: ex_frame_def)
  have v: "length ex_long = 2 * 2"
    "ex_long ! (0 * 2 + 1) = \<lparr>question_text = Some [50], model_name = Some [109], answer_text = None\<rparr>"
    by (simp_all add: ex_long_def)
  from reshape_count_and_order [OF r]
  have "0 < length (columns ex_frame) - 1 \<and> 1 < length (question_rows None ex_frame) \<longrightarrow>
    ex_long ! (0 * length (question_rows None ex_frame) + 1) =
     \<lparr>question_text =
        question_rows None ex_frame ! 1 !
          index_of question_text_label (renamed_labels None ex_frame),
      model_name =
        Some (strip (renamed_labels None ex_frame !
                      (model_cols (renamed_labels None ex_frame) ! 0))),
      answer_text =
        clean_text (question_rows None ex_frame ! 1 !
                      (model_cols (renamed_labels None ex_frame) ! 0))\<rparr>"
    by blast
  with n
  have "ex_long ! (0 * length (question_rows None ex_frame) + 1) =
     \<lparr>question_text =
        question_rows None ex_frame ! 1 !
          index_of question_text_label (renamed_labels None ex_frame),
      model_name =
        Some (strip (renamed_labels None ex_frame !
                      (model_cols (renamed_labels None ex_frame) ! 0))),
      answer_text =
        clean_text (question_rows None ex_frame ! 1 !
                      (model_cols (renamed_labels None ex_frame) ! 0))\<rparr>"
    by simp
  with r n v show ?thesis by blast
qed

text \<open>
  The order the specification states, row by row, is not the order of the code: on the
  example frame the two differ.
\<close>

theorem reshape_not_row_major:
  "reshape None ex_frame \<noteq>
     (Inr (map clean_long
             (row_major (renamed_labels None ex_frame)
                (index_of question_text_label (renamed_labels None ex_frame))
                (question_rows None ex_frame))) :: unit read_error + long_record list)"
  unfolding ex_reshape ex_labels ex_index ex_rows ex_row_major
  by (simp add: ex_long_def)

text \<open>
  Claim C8. With \<open>keep_empty_answers\<close> false the batch that \<open>read_table\<close> returns is the
  batch it returns with the flag true, without the records whose cleaned answer is absent;
  none of its records has an absent answer. With the flag true the batch is the whole
  reshaped table, the records with an absent answer among it.
\<close>

theorem empty_answer_policy:
  fixes read_excel :: "sheet \<Rightarrow> 'e + dataframe"
  shows
  "read_table read_excel read_csv suffix sheet_sel question_col False =
     map_sum id (filter (\<lambda>r. answer_text r \<noteq> None))
       (read_table read_excel read_csv suffix sheet_sel question_col True) \<and>
   (\<forall>long. read_table read_excel read_csv suffix sheet_sel question_col False = Inr long \<longrightarrow>
      list_all (\<lambda>r. answer_text r \<noteq> None) long) \<and>
   (\<forall>df. load_table read_excel read_csv suffix sheet_sel = Inr df \<and> 2 \<le> length (columns df) \<longrightarrow>
      read_table read_excel read_csv suffix sheet_sel question_col True = reshape question_col df)"
proof (intro conjI allI impI)
  show f: "read_table read_excel read_csv suffix sheet_sel question_col False =
     map_sum id (filter (\<lambda>r. answer_text r \<noteq> None))
       (read_table read_excel read_csv suffix sheet_sel question_col True)"
    by (simp add: read_table_def split: sum.splits)
  fix long
  assume "read_table read_excel read_csv suffix sheet_sel question_col False = Inr long"
  with f obtain long' where "long = filter (\<lambda>r. answer_text r \<noteq> None) long'"
    by (cases "read_table read_excel read_csv suffix sheet_sel question_col True") auto
  then show "list_all (\<lambda>r. answer_text r \<noteq> None) long" by (simp add: list_all_iff)
next
  fix df
  assume "load_table read_excel read_csv suffix sheet_sel = Inr df \<and> 2 \<le> length (columns df)"
  then show "read_table read_excel read_csv suffix sheet_sel question_col True =
      reshape question_col df"
    by (simp add: read_table_def split: sum.splits)
qed

text \<open>
  On the example frame two of the four records have an absent answer: the batch has all
  four with the flag true and the two others with the flag false.
\<close>

theorem empty_answer_policy_witness:
  "load_table (\<lambda>_. Inl ()) (Inr ex_frame) (ascii ''.CSV'') None = Inr ex_frame \<and>
   2 \<le> length (columns ex_frame) \<and>
   read_table (\<lambda>_. Inl ()) (Inr ex_frame) (ascii ''.CSV'') None None True = Inr ex_long \<and>
   read_table (\<lambda>_. Inl ()) (Inr ex_frame) (ascii ''.CSV'') None None False =
     Inr [ex_long ! 0, ex_long ! 3] \<and>
   list_all (\<lambda>r. answer_text r \<noteq> None) [ex_long ! 0, ex_long ! 3] \<and>
   answer_text (ex_long ! 1) = None \<and> answer_text (ex_long ! 2) = None"
proof -
  note t = empty_answer_policy [of "\<lambda>_. Inl ()" "Inr ex_frame" "ascii ''.CSV''" None None]
  have c: "2 \<le> length (columns ex_frame)" by (simp add: ex_frame_def)
  from t ex_load c
  have "read_table (\<lambda>_. Inl ()) (Inr ex_frame) (ascii ''.CSV'') None None True =
      reshape None ex_frame" by blast
  then have k: "read_table (\<lambda>_. Inl ()) (Inr ex_frame) (ascii ''.CSV'') None None True = Inr ex_long"
    by (simp add: ex_reshape)
  from t have "read_table (\<lambda>_. Inl ()) (Inr ex_frame) (ascii ''.CSV'') None None False =
     map_sum id (filter (\<lambda>r. answer_text r \<noteq> None))
       (read_table (\<lambda>_. Inl ()) (Inr ex_frame) (ascii ''.CSV'') None None True)" by blast
  then have d: "read_table (\<lambda>_. Inl ()) (Inr ex_frame) (ascii ''.CSV'') None None False =
     Inr [ex_long ! 0, ex_long ! 3]"
    unfolding k by (simp add: ex_long_def)
  from t d have a: "list_all (\<lambda>r. answer_text r \<noteq> None) [ex_long ! 0, ex_long ! 3]" by blast
  have n: "answer_text (ex_long ! 1) = None" "answer_text (ex_long ! 2) = None"
    by (simp_all add: ex_long_def)
  from ex_load c k d a n show ?thesis by blast
qed


end
